theory Spec2Isabelle
  imports Complex_Main "HOL-Library.Sublist"
begin

section \<open>Values of the input document\<close>

text \<open>
  \<^verbatim>\<open>PolicyCheck.py\<close> receives what \<^verbatim>\<open>json.load\<close> returns: \<^verbatim>\<open>None\<close>, booleans, integers,
  floats, strings, lists and dictionaries. Text is a \<^typ>\<open>string\<close> of the characters
  U+0000 to U+00FF, a \<^typ>\<open>char\<close> being the code point; white space, digits, case and
  \<^verbatim>\<open>repr\<close> are those of Python on these characters. A float of the document
  is carried by whether it is non-zero and by the text \<^verbatim>\<open>str\<close> gives for it (the engine
  only tests and prints such a value). A dictionary is an association list in insertion
  order, read with \<^const>\<open>map_of\<close>.
\<close>

datatype jval =
    JNull
  | JBool bool
  | JInt int
  | JFloat bool string
  | JStr string
  | JList "jval list"
  | JDict "(string \<times> jval) list"

type_synonym policy = "(string \<times> jval) list"

datatype py_error = AttributeError string | TypeError string | KeyError string

text \<open>Truth value of an object, as \<^verbatim>\<open>if value\<close> and \<^verbatim>\<open>not value\<close> test it.\<close>

fun py_truthy :: "jval \<Rightarrow> bool" where
  "py_truthy JNull = False"
| "py_truthy (JBool b) = b"
| "py_truthy (JInt i) = (i \<noteq> 0)"
| "py_truthy (JFloat nz t) = nz"
| "py_truthy (JStr s) = (s \<noteq> [])"
| "py_truthy (JList xs) = (xs \<noteq> [])"
| "py_truthy (JDict kvs) = (kvs \<noteq> [])"

subsection \<open>Characters and strings\<close>

definition is_digit :: "char \<Rightarrow> bool" where
  "is_digit c = (48 \<le> (of_char c :: nat) \<and> (of_char c :: nat) \<le> 57)"

definition is_space :: "char \<Rightarrow> bool" where
  \<comment> \<open>\<^verbatim>\<open>str.isspace\<close>: tab, line feed, VT, FF, CR, FS, GS, RS, US, space, U+0085 (next
     line) and U+00A0 (no-break space)\<close>
  "is_space c = ((9 \<le> (of_char c :: nat) \<and> (of_char c :: nat) \<le> 13)
     \<or> (28 \<le> (of_char c :: nat) \<and> (of_char c :: nat) \<le> 32)
     \<or> (of_char c :: nat) = 133 \<or> (of_char c :: nat) = 160)"

text \<open>
  \<^verbatim>\<open>str.upper\<close> and \<^verbatim>\<open>str.lower\<close>: the letters are \<open>a-z\<close>, \<open>A-Z\<close> and the accented
  letters U+00C0 to U+00DE and U+00E0 to U+00FE (not the signs U+00D7 and U+00F7). The
  upper case of U+00DF (sharp s) is the two letters \<^verbatim>\<open>SS\<close>. The upper cases of U+00B5
  (micro sign) and U+00FF lie beyond U+00FF, where the type has no character: the two are
  left as they are, which no comparison with ASCII text can tell.
\<close>

definition upper_char :: "char \<Rightarrow> char" where
  "upper_char c =
     (if (97 \<le> (of_char c :: nat) \<and> (of_char c :: nat) \<le> 122)
         \<or> (224 \<le> (of_char c :: nat) \<and> (of_char c :: nat) \<le> 254 \<and> (of_char c :: nat) \<noteq> 247)
      then char_of ((of_char c :: nat) - 32) else c)"

definition lower_char :: "char \<Rightarrow> char" where
  "lower_char c =
     (if (65 \<le> (of_char c :: nat) \<and> (of_char c :: nat) \<le> 90)
         \<or> (192 \<le> (of_char c :: nat) \<and> (of_char c :: nat) \<le> 222 \<and> (of_char c :: nat) \<noteq> 215)
      then char_of ((of_char c :: nat) + 32) else c)"

definition upper :: "string \<Rightarrow> string" where
  "upper s = concat (map (\<lambda>c. if (of_char c :: nat) = 223 then ''SS'' else [upper_char c]) s)"

definition lower :: "string \<Rightarrow> string" where
  "lower s = map lower_char s"

definition strip :: "string \<Rightarrow> string" where
  "strip s = rev (dropWhile is_space (rev (dropWhile is_space s)))"

text \<open>\<^verbatim>\<open>sub in s\<close> on strings: \<^verbatim>\<open>sub\<close> occurs in \<^verbatim>\<open>s\<close> as a contiguous run.\<close>

fun contains :: "string \<Rightarrow> string \<Rightarrow> bool" where
  "contains sub [] = (sub = [])"
| "contains sub (c # cs) = (prefix sub (c # cs) \<or> contains sub cs)"

text \<open>\<^verbatim>\<open>sep.join(parts)\<close>\<close>

fun join :: "string \<Rightarrow> string list \<Rightarrow> string" where
  "join sep [] = []"
| "join sep [x] = x"
| "join sep (x # y # ys) = x @ sep @ join sep (y # ys)"

subsection \<open>\<^verbatim>\<open>str\<close> and \<^verbatim>\<open>repr\<close>\<close>

definition digit_char :: "nat \<Rightarrow> char" where
  "digit_char n = char_of (48 + n)"

function str_nat :: "nat \<Rightarrow> string" where
  "str_nat n = (if n < 10 then [digit_char n] else str_nat (n div 10) @ [digit_char (n mod 10)])"
  by pat_completeness auto
termination
  by (relation "measure id") auto

declare str_nat.simps [simp del]

definition str_int :: "int \<Rightarrow> string" where
  "str_int i = (if i < 0 then CHR ''-'' # str_nat (nat (- i)) else str_nat (nat i))"

definition hex_char :: "nat \<Rightarrow> char" where
  "hex_char n = (if n < 10 then char_of (48 + n) else char_of (87 + n))"

definition squote :: char where "squote = CHR 0x27"
definition dquote :: char where "dquote = CHR 0x22"
definition backslash :: char where "backslash = CHR 0x5C"

text \<open>
  \<^verbatim>\<open>repr\<close> of a string: double quotes when the text has a single quote and no double
  quote, single quotes otherwise; the quote and the backslash are escaped, tab, line feed
  and carriage return are written \<^verbatim>\<open>\t \n \r\<close>, every other character that is not
  printable (U+0000 to U+001F, U+007F to U+00A0 and U+00AD) as \<^verbatim>\<open>\xhh\<close>.
\<close>

definition repr_char :: "char \<Rightarrow> char \<Rightarrow> string" where
  "repr_char q c =
     (if c = q \<or> c = backslash then [backslash, c]
      else if (of_char c :: nat) = 9 then [backslash, CHR ''t'']
      else if (of_char c :: nat) = 10 then [backslash, CHR ''n'']
      else if (of_char c :: nat) = 13 then [backslash, CHR ''r'']
      else if (of_char c :: nat) < 32 \<or> (127 \<le> (of_char c :: nat) \<and> (of_char c :: nat) \<le> 160)
              \<or> (of_char c :: nat) = 173
        then [backslash, CHR ''x'', hex_char ((of_char c :: nat) div 16),
              hex_char ((of_char c :: nat) mod 16)]
      else [c])"

definition repr_str :: "string \<Rightarrow> string" where
  "repr_str s =
     (let q = (if squote \<in> set s \<and> dquote \<notin> set s then dquote else squote)
      in q # concat (map (repr_char q) s) @ [q])"

text \<open>
  \<^verbatim>\<open>str(v)\<close> is \<open>py_show False v\<close> and \<^verbatim>\<open>repr(v)\<close> is \<open>py_show True v\<close>: they differ on
  strings only, and the elements of a list or dictionary are always shown by \<^verbatim>\<open>repr\<close>.
\<close>

fun py_show :: "bool \<Rightarrow> jval \<Rightarrow> string" where
  "py_show r JNull = ''None''"
| "py_show r (JBool b) = (if b then ''True'' else ''False'')"
| "py_show r (JInt i) = str_int i"
| "py_show r (JFloat nz t) = t"
| "py_show r (JStr s) = (if r then repr_str s else s)"
| "py_show r (JList xs) = ''['' @ join '', '' (map (py_show True) xs) @ '']''"
| "py_show r (JDict kvs) =
     ''{'' @ join '', '' (map (\<lambda>kv. repr_str (fst kv) @ '': '' @ py_show True (snd kv)) kvs) @ ''}''"

definition py_str :: "jval \<Rightarrow> string" where
  "py_str v = py_show False v"

text \<open>\<^verbatim>\<open>d.get(key, default)\<close>\<close>

definition dict_get :: "(string \<times> jval) list \<Rightarrow> string \<Rightarrow> jval \<Rightarrow> jval" where
  "dict_get d k dflt = (case map_of d k of None \<Rightarrow> dflt | Some v \<Rightarrow> v)"

section \<open>Field normalizer\<close>

text \<open>\<^verbatim>\<open>_safe_string\<close>: a list is joined with \<^verbatim>\<open>", "\<close>, a false value gives the empty string.\<close>

definition safe_string :: "jval \<Rightarrow> string" where
  "safe_string v =
     (case v of
        JList xs \<Rightarrow> join '', '' (map py_str xs)
      | _ \<Rightarrow> (if py_truthy v then py_str v else []))"

text \<open>
  \<^verbatim>\<open>re.search(r'(\d+(?:\.\d+)?)', s)\<close>: the leftmost match starts at the first digit of
  \<^verbatim>\<open>s\<close>, takes the whole run of digits there and, when a dot and a digit follow, the dot
  and the run of digits after it.
\<close>

definition re_search_number :: "string \<Rightarrow> string option" where
  "re_search_number s =
     (let s1 = dropWhile (\<lambda>c. \<not> is_digit c) s in
      if s1 = [] then None
      else
        (let ip = takeWhile is_digit s1; r = dropWhile is_digit s1 in
         case r of
           [] \<Rightarrow> Some ip
         | c # r' \<Rightarrow>
             (if c = CHR ''.'' \<and> takeWhile is_digit r' \<noteq> []
              then Some (ip @ [CHR ''.''] @ takeWhile is_digit r')
              else Some ip)))"

definition digits_value :: "string \<Rightarrow> nat" where
  "digits_value ds = foldl (\<lambda>a c. 10 * a + ((of_char c :: nat) - 48)) 0 ds"

subsection \<open>Floats\<close>

text \<open>
  A double that is not negative is a rational number or infinity. \<open>scale a b\<close> doubles
  \<open>a\<close> or \<open>b\<close> until \<open>2^52 \<le> a / b < 2^53\<close>; rounding that quotient to the nearest
  integer, ties to the even one, gives the 53-bit significand of the double nearest to the
  fraction \<open>a / b\<close>, whatever the exponent.
\<close>

datatype double = Finite rat | Infinity

definition round_half_even :: "nat \<Rightarrow> nat \<Rightarrow> nat" where
  "round_half_even a b =
     (let q = a div b; r = a mod b
      in if 2 * r < b then q else if b < 2 * r then q + 1 else if even q then q else q + 1)"

function scale :: "nat \<Rightarrow> nat \<Rightarrow> nat \<times> nat" where
  "scale a b =
     (if a = 0 \<or> b = 0 then (a, b)
      else if a < 2 ^ 52 * b then scale (2 * a) b
      else if 2 ^ 53 * b \<le> a then scale a (2 * b)
      else (a, b))"
  by pat_completeness auto
termination
  by (relation "measures [\<lambda>(a, b). 2 ^ 52 * b - a, \<lambda>(a, b). a - 2 ^ 52 * b]") auto

declare scale.simps [simp del]

text \<open>
  The double nearest to \<open>a / b\<close> with no bound on the exponent, as a fraction: what
  \<^verbatim>\<open>a / b\<close> is for two list lengths.
\<close>

definition nearest_double :: "nat \<Rightarrow> nat \<Rightarrow> nat \<times> nat" where
  "nearest_double a b =
     (if a = 0 then (0, 1)
      else (case scale a b of (a', b') \<Rightarrow> (round_half_even a' b' * (b' div b), a' div a)))"

text \<open>
  The double for the fraction \<open>a / b\<close> with the range of the exponent: below \<open>2^-1022\<close>
  the doubles are the multiples of \<open>2^-1074\<close> (so a fraction of at most \<open>2^-1075\<close> gives
  0.0), and a fraction that rounds to \<open>2^1024\<close> or more gives infinity.
\<close>

definition py_float_of :: "nat \<Rightarrow> nat \<Rightarrow> double" where
  "py_float_of a b =
     (if a = 0 then Finite 0
      else if a * 2 ^ 1022 < b
        then Finite (of_nat (round_half_even (a * 2 ^ 1074) b) / 2 ^ 1074)
      else if 2 ^ 1024 * b \<le> a then Infinity
      else (case nearest_double a b of
              (n, d) \<Rightarrow> if 2 ^ 1024 * d \<le> n then Infinity else Finite (of_nat n / of_nat d)))"

subsection \<open>The numeric extractor\<close>

text \<open>
  \<^verbatim>\<open>float(token)\<close> for a token \<^verbatim>\<open>digits\<close> or \<^verbatim>\<open>digits.digits\<close>: the double for the
  decimal number the token writes.
\<close>

definition py_float :: "string \<Rightarrow> double" where
  "py_float tok =
     (let ip = takeWhile is_digit tok; r = dropWhile is_digit tok in
      case r of
        [] \<Rightarrow> py_float_of (digits_value ip) 1
      | c # fr \<Rightarrow>
          py_float_of (digits_value ip * 10 ^ length fr + digits_value fr) (10 ^ length fr))"

text \<open>
  \<^verbatim>\<open>_extract_bytes_value\<close>. The integer 0 of \<^verbatim>\<open>return 0\<close> and the float 0.0 are one value
  here: the result is only compared with 0.
\<close>

definition extract_bytes_value :: "jval \<Rightarrow> double" where
  "extract_bytes_value bytes_str =
     (if \<not> py_truthy bytes_str \<or> bytes_str = JStr ''0 B'' then Finite 0
      else (case re_search_number (py_str bytes_str) of
              None \<Rightarrow> Finite 0
            | Some tok \<Rightarrow> py_float tok))"

section \<open>Findings\<close>

text \<open>
  The dictionaries the four audits append to their result lists, one record type for each
  shape. \<open>id\<close> is the 1-based position of the rule in the input.
\<close>

record unused_finding =
  u_id :: nat
  u_name :: string
  u_action :: string
  u_bytes :: string
  u_source :: string
  u_destination :: string
  u_service :: string

record rule_info =
  r_id :: nat
  r_name :: string
  r_source :: string
  r_destination :: string
  r_service :: string
  r_src_any :: bool
  r_dst_any :: bool
  r_srv_any :: bool
  r_risk_level :: "string option"

record dup_member =
  m_id :: nat
  m_name :: string
  m_bytes :: string

record dup_group =
  g_signature :: string
  g_rules :: "dup_member list"
  g_count :: nat

record log_info =
  l_id :: nat
  l_name :: string
  l_log_setting :: string
  l_action :: string
  l_bytes :: string

text \<open>\<^verbatim>\<open>self._safe_string(policy.get('Policy', f'Rule_{i+1}'))\<close>\<close>

definition rule_name :: "nat \<Rightarrow> policy \<Rightarrow> string" where
  "rule_name i policy = safe_string (dict_get policy ''Policy'' (JStr (''Rule_'' @ str_nat (i + 1))))"

text \<open>\<^verbatim>\<open>self._safe_string(policy.get('Action', '')).upper()\<close>\<close>

definition action_upper :: "policy \<Rightarrow> string" where
  "action_upper policy = upper (safe_string (dict_get policy ''Action'' (JStr [])))"

section \<open>Unused-rule detector\<close>

definition bytes_value_of :: "policy \<Rightarrow> double" where
  "bytes_value_of policy = extract_bytes_value (dict_get policy ''Bytes'' (JStr ''0 B''))"

definition unused_entry :: "nat \<Rightarrow> policy \<Rightarrow> unused_finding" where
  "unused_entry i policy =
     \<lparr> u_id = i + 1,
       u_name = rule_name i policy,
       u_action = action_upper policy,
       u_bytes = safe_string (dict_get policy ''Bytes'' (JStr ''0 B'')),
       u_source = safe_string (dict_get policy ''Source'' (JStr [])),
       u_destination = safe_string (dict_get policy ''Destination'' (JStr [])),
       u_service = safe_string (dict_get policy ''Service'' (JStr [])) \<rparr>"

text \<open>The loop of \<^verbatim>\<open>audit_unused_rules\<close> over \<^verbatim>\<open>enumerate(self.policies)\<close>, from index \<open>i\<close> on.\<close>

fun unused_loop :: "nat \<Rightarrow> policy list \<Rightarrow> unused_finding list \<Rightarrow> unused_finding list" where
  "unused_loop i [] unused_rules = unused_rules"
| "unused_loop i (policy # rest) unused_rules =
     unused_loop (Suc i) rest
       (if bytes_value_of policy = Finite 0 \<and> action_upper policy = ''ACCEPT''
        then unused_rules @ [unused_entry i policy]
        else unused_rules)"

definition audit_unused_rules :: "policy list \<Rightarrow> unused_finding list" where
  "audit_unused_rules policies = unused_loop 0 policies []"

section \<open>Permissiveness classifier\<close>

definition src_any :: "policy \<Rightarrow> bool" where
  "src_any policy =
     (let source = lower (safe_string (dict_get policy ''Source'' (JStr [])))
      in source \<in> set [''all'', ''any'', []] \<or> contains ''any'' source \<or> contains ''all'' source)"

definition dst_any :: "policy \<Rightarrow> bool" where
  "dst_any policy =
     (let destination = lower (safe_string (dict_get policy ''Destination'' (JStr [])))
      in destination \<in> set [''all'', ''any'', []] \<or> contains ''any'' destination
         \<or> contains ''all'' destination)"

definition srv_any :: "policy \<Rightarrow> bool" where
  "srv_any policy =
     (let service = lower (safe_string (dict_get policy ''Service'' (JStr [])))
      in service \<in> set [''all'', ''any'', []] \<or> contains ''all'' service \<or> contains ''any'' service)"

definition rule_info_of :: "nat \<Rightarrow> policy \<Rightarrow> rule_info" where
  "rule_info_of i policy =
     \<lparr> r_id = i + 1,
       r_name = rule_name i policy,
       r_source = safe_string (dict_get policy ''Source'' (JStr [])),
       r_destination = safe_string (dict_get policy ''Destination'' (JStr [])),
       r_service = safe_string (dict_get policy ''Service'' (JStr [])),
       r_src_any = src_any policy,
       r_dst_any = dst_any policy,
       r_srv_any = srv_any policy,
       r_risk_level = None \<rparr>"

text \<open>
  The loop of \<^verbatim>\<open>audit_permissive_rules\<close>; the accumulator is the pair
  \<open>(all_all_rules, single_all_rules)\<close>.
\<close>

fun permissive_loop ::
  "nat \<Rightarrow> policy list \<Rightarrow> rule_info list \<times> rule_info list \<Rightarrow> rule_info list \<times> rule_info list" where
  "permissive_loop i [] acc = acc"
| "permissive_loop i (policy # rest) (all_all_rules, single_all_rules) =
     permissive_loop (Suc i) rest
       (if action_upper policy = ''ACCEPT'' \<and> (src_any policy \<or> dst_any policy \<or> srv_any policy)
        then
          (if src_any policy \<and> dst_any policy \<and> srv_any policy
           then (all_all_rules @ [(rule_info_of i policy)\<lparr>r_risk_level := Some ''CRITICAL''\<rparr>],
                 single_all_rules)
           else (all_all_rules,
                 single_all_rules @ [(rule_info_of i policy)\<lparr>r_risk_level := Some ''HIGH''\<rparr>]))
        else (all_all_rules, single_all_rules))"

definition audit_permissive_rules :: "policy list \<Rightarrow> rule_info list \<times> rule_info list" where
  "audit_permissive_rules policies = permissive_loop 0 policies ([], [])"

section \<open>Duplicate-signature detector\<close>

definition signature_of :: "policy \<Rightarrow> string" where
  "signature_of policy =
     (let source = strip (safe_string (dict_get policy ''Source'' (JStr [])));
          destination = strip (safe_string (dict_get policy ''Destination'' (JStr [])));
          service = strip (safe_string (dict_get policy ''Service'' (JStr [])));
          interface_pair = strip (safe_string (dict_get policy ''Interface Pair'' (JStr [])))
      in source @ ''|'' @ destination @ ''|'' @ service @ ''|'' @ interface_pair @ ''|''
         @ action_upper policy)"

definition member_of :: "nat \<Rightarrow> policy \<Rightarrow> dup_member" where
  "member_of i policy =
     \<lparr> m_id = i + 1,
       m_name = rule_name i policy,
       m_bytes = safe_string (dict_get policy ''Bytes'' (JStr ''0 B'')) \<rparr>"

text \<open>
  \<^verbatim>\<open>rule_signatures[signature].append(member)\<close> on a \<^verbatim>\<open>defaultdict(list)\<close>: a dictionary
  keeps its keys in the order of their first insertion.
\<close>

fun sig_append ::
  "(string \<times> dup_member list) list \<Rightarrow> string \<Rightarrow> dup_member \<Rightarrow> (string \<times> dup_member list) list" where
  "sig_append [] k m = [(k, [m])]"
| "sig_append ((k', ms) # rest) k m =
     (if k' = k then (k', ms @ [m]) # rest else (k', ms) # sig_append rest k m)"

fun signature_loop ::
  "nat \<Rightarrow> policy list \<Rightarrow> (string \<times> dup_member list) list \<Rightarrow> (string \<times> dup_member list) list" where
  "signature_loop i [] rule_signatures = rule_signatures"
| "signature_loop i (policy # rest) rule_signatures =
     (if action_upper policy \<noteq> ''ACCEPT'' then signature_loop (Suc i) rest rule_signatures
      else signature_loop (Suc i) rest
             (sig_append rule_signatures (signature_of policy) (member_of i policy)))"

text \<open>The second loop, over \<^verbatim>\<open>rule_signatures.items()\<close>.\<close>

fun collect_duplicates :: "(string \<times> dup_member list) list \<Rightarrow> dup_group list \<Rightarrow> dup_group list" where
  "collect_duplicates [] duplicates = duplicates"
| "collect_duplicates ((signature, rules) # rest) duplicates =
     collect_duplicates rest
       (if length rules > 1
        then duplicates @ [\<lparr> g_signature = signature, g_rules = rules, g_count = length rules \<rparr>]
        else duplicates)"

definition audit_duplicate_rules :: "policy list \<Rightarrow> dup_group list" where
  "audit_duplicate_rules policies = collect_duplicates (signature_loop 0 policies []) []"

section \<open>Logging-coverage auditor\<close>

definition log_setting_of :: "policy \<Rightarrow> string" where
  "log_setting_of policy = lower (strip (safe_string (dict_get policy ''Log'' (JStr []))))"

definition log_info_of :: "nat \<Rightarrow> policy \<Rightarrow> log_info" where
  "log_info_of i policy =
     \<lparr> l_id = i + 1,
       l_name = rule_name i policy,
       l_log_setting = safe_string (dict_get policy ''Log'' (JStr [])),
       l_action = safe_string (dict_get policy ''Action'' (JStr [])),
       l_bytes = safe_string (dict_get policy ''Bytes'' (JStr ''0 B'')) \<rparr>"

fun logging_loop ::
  "nat \<Rightarrow> policy list \<Rightarrow> log_info list \<times> log_info list \<Rightarrow> log_info list \<times> log_info list" where
  "logging_loop i [] acc = acc"
| "logging_loop i (policy # rest) (no_logging, with_logging) =
     logging_loop (Suc i) rest
       (if log_setting_of policy \<in> set [[], ''none'', ''disable'']
        then (no_logging @ [log_info_of i policy], with_logging)
        else (no_logging, with_logging @ [log_info_of i policy]))"

definition audit_logging :: "policy list \<Rightarrow> log_info list \<times> log_info list" where
  "audit_logging policies = logging_loop 0 policies ([], [])"

section \<open>Results map and recommendations\<close>

text \<open>
  \<^verbatim>\<open>self.results\<close>: a dictionary with one key for each audit that has run. A key that is
  not there yet is \<open>None\<close>.
\<close>

record logging_result =
  no_logging :: "log_info list"
  with_logging :: "log_info list"

record results =
  unused_rules :: "unused_finding list option"
  all_all_rules :: "rule_info list option"
  single_all_rules :: "rule_info list option"
  duplicate_rules :: "dup_group list option"
  logging :: "logging_result option"

definition empty_results :: results where
  "empty_results =
     \<lparr> unused_rules = None, all_all_rules = None, single_all_rules = None,
       duplicate_rules = None, logging = None \<rparr>"

record recommendation =
  rc_priority :: string
  rc_category :: string
  rc_issue :: string
  rc_count :: nat
  rc_action :: string

definition unused_recommendation :: "nat \<Rightarrow> recommendation" where
  "unused_recommendation n =
     \<lparr> rc_priority = ''HIGH'', rc_category = ''Cleanup'', rc_issue = ''Unused ACCEPT rules'',
       rc_count = n,
       rc_action = ''Remove or disable these rules to reduce attack surface'' \<rparr>"

definition all_all_recommendation :: "nat \<Rightarrow> recommendation" where
  "all_all_recommendation n =
     \<lparr> rc_priority = ''CRITICAL'', rc_category = ''Security'',
       rc_issue = ''Rules with ALL ALL configuration'', rc_count = n,
       rc_action = ''URGENT: Restrict source, destination and services - these rules allow everything'' \<rparr>"

definition single_all_recommendation :: "nat \<Rightarrow> recommendation" where
  "single_all_recommendation n =
     \<lparr> rc_priority = ''HIGH'', rc_category = ''Security'',
       rc_issue = ''Rules with single ALL configuration'', rc_count = n,
       rc_action = ''Restrict sources, destinations and services according to least privilege principle'' \<rparr>"

definition duplicate_recommendation :: "nat \<Rightarrow> recommendation" where
  "duplicate_recommendation n =
     \<lparr> rc_priority = ''MEDIUM'', rc_category = ''Optimization'', rc_issue = ''Duplicate rules'',
       rc_count = n, rc_action = ''Consolidate or remove redundant rules'' \<rparr>"

definition logging_recommendation :: "nat \<Rightarrow> recommendation" where
  "logging_recommendation n =
     \<lparr> rc_priority = ''MEDIUM'', rc_category = ''Monitoring'', rc_issue = ''Rules without logging'',
       rc_count = n, rc_action = ''Enable logging for traceability and monitoring'' \<rparr>"

text \<open>
  \<^verbatim>\<open>_generate_recommendations\<close>. \<^verbatim>\<open>if self.results.get(key)\<close> holds when the key is there
  and its list is not empty.
\<close>

definition generate_recommendations :: "results \<Rightarrow> recommendation list" where
  "generate_recommendations res =
     (let recommendations = [];
          recommendations =
            (case unused_rules res of
               Some (x # xs) \<Rightarrow> recommendations @ [unused_recommendation (length (x # xs))]
             | _ \<Rightarrow> recommendations);
          recommendations =
            (case all_all_rules res of
               Some (x # xs) \<Rightarrow> recommendations @ [all_all_recommendation (length (x # xs))]
             | _ \<Rightarrow> recommendations);
          recommendations =
            (case single_all_rules res of
               Some (x # xs) \<Rightarrow> recommendations @ [single_all_recommendation (length (x # xs))]
             | _ \<Rightarrow> recommendations);
          recommendations =
            (case duplicate_rules res of
               Some (x # xs) \<Rightarrow> recommendations @ [duplicate_recommendation (length (x # xs))]
             | _ \<Rightarrow> recommendations);
          n = (case logging res of None \<Rightarrow> 0 | Some lg \<Rightarrow> length (no_logging lg));
          recommendations =
            (if n > 0 then recommendations @ [logging_recommendation n] else recommendations)
      in recommendations)"

text \<open>The count of a category: the length of its list, 0 when the key is not there.\<close>

definition count_of :: "'a list option \<Rightarrow> nat" where
  "count_of v = (case v of None \<Rightarrow> 0 | Some xs \<Rightarrow> length xs)"

definition no_logging_count :: "results \<Rightarrow> nat" where
  "no_logging_count res = (case logging res of None \<Rightarrow> 0 | Some lg \<Rightarrow> length (no_logging lg))"

section \<open>Report assembler\<close>

text \<open>
  The text of \<^verbatim>\<open>round(n / total * 100, 2)\<close> for integers \<open>n\<close> and \<open>total > 0\<close>: the
  quotient and the product are each rounded to the nearest double; \<^verbatim>\<open>round(x, 2)\<close> is the
  double nearest to \<open>k / 100\<close>, where \<open>k\<close> is \<open>100 x\<close> rounded to the nearest integer, ties
  to even; and \<^verbatim>\<open>str\<close> of that double is the shortest decimal text that reads back as it,
  which is \<open>k / 100\<close> written with one or two decimals (for values below \<open>10^15\<close>).
\<close>

definition round_percent :: "nat \<Rightarrow> nat \<Rightarrow> string" where
  "round_percent n total' =
     (case nearest_double n total' of (qn, qd) \<Rightarrow>
      case nearest_double (100 * qn) qd of (xn, xd) \<Rightarrow>
        (let k = round_half_even (100 * xn) xd
         in str_nat (k div 100) @ ''.'' @
            (if k mod 10 = 0 then [digit_char (k mod 100 div 10)]
             else [digit_char (k mod 100 div 10), digit_char (k mod 10)])))"

text \<open>
  What the engine takes from its environment: the clock and whether the report file can
  be written.
\<close>

record env =
  now :: string
  can_write :: bool

text \<open>\<^verbatim>\<open>f"{round(n / total * 100, 2) if total > 0 else 0}%"\<close>\<close>

definition percent :: "nat \<Rightarrow> nat \<Rightarrow> string" where
  "percent n total' = (if total' > 0 then round_percent n total' else ''0'') @ ''%''"

record audit_info =
  ai_date :: string
  ai_total_rules :: nat

record summary =
  total_rules_analyzed :: nat
  all_all_rules_count :: nat
  all_all_rules_percent :: string
  single_all_rules_count :: nat
  single_all_rules_percent :: string
  duplicate_groups_count :: nat
  duplicate_groups_percent :: string
  unused_rules_count :: nat
  unused_rules_percent :: string
  rules_without_logging :: nat
  rules_without_logging_percent :: string

record detailed_results =
  d_unused_rules :: "unused_finding list"
  d_all_all_rules :: "rule_info list"
  d_single_all_rules :: "rule_info list"
  d_duplicate_rules :: "dup_group list"
  d_without_logging :: "log_info list"

record report =
  rp_audit_info :: audit_info
  rp_summary :: summary
  rp_detailed_results :: detailed_results
  rp_recommendations :: "recommendation list"

text \<open>
  The dictionary \<^verbatim>\<open>report\<close> of \<^verbatim>\<open>generate_json_report\<close>. \<^verbatim>\<open>self.results[key]\<close> raises
  \<^verbatim>\<open>KeyError\<close> for a key that is not there; the keys are read in the order of the source.
\<close>

definition build_report :: "env \<Rightarrow> nat \<Rightarrow> results \<Rightarrow> py_error + report" where
  "build_report e total' res =
     (case all_all_rules res of None \<Rightarrow> Inl (KeyError ''all_all_rules'') | Some aa \<Rightarrow>
     (case single_all_rules res of None \<Rightarrow> Inl (KeyError ''single_all_rules'') | Some sa \<Rightarrow>
     (case duplicate_rules res of None \<Rightarrow> Inl (KeyError ''duplicate_rules'') | Some du \<Rightarrow>
     (case unused_rules res of None \<Rightarrow> Inl (KeyError ''unused_rules'') | Some un \<Rightarrow>
     (case logging res of None \<Rightarrow> Inl (KeyError ''logging'') | Some lg \<Rightarrow>
        Inr \<lparr> rp_audit_info = \<lparr> ai_date = now e, ai_total_rules = total' \<rparr>,
              rp_summary =
                \<lparr> total_rules_analyzed = total',
                  all_all_rules_count = length aa,
                  all_all_rules_percent = percent (length aa) total',
                  single_all_rules_count = length sa,
                  single_all_rules_percent = percent (length sa) total',
                  duplicate_groups_count = length du,
                  duplicate_groups_percent = percent (length du) total',
                  unused_rules_count = length un,
                  unused_rules_percent = percent (length un) total',
                  rules_without_logging = length (no_logging lg),
                  rules_without_logging_percent = percent (length (no_logging lg)) total' \<rparr>,
              rp_detailed_results =
                \<lparr> d_unused_rules = un, d_all_all_rules = aa, d_single_all_rules = sa,
                  d_duplicate_rules = du, d_without_logging = no_logging lg \<rparr>,
              rp_recommendations = generate_recommendations res \<rparr>)))))"

section \<open>The auditor object\<close>

text \<open>
  The attributes of a \<^verbatim>\<open>FortigateAuditor\<close>; an attribute that was never assigned is
  \<open>None\<close>, and reading it raises \<^verbatim>\<open>AttributeError\<close>.
\<close>

record auditor =
  a_data :: "jval option"
  a_policies :: "jval option"
  a_results :: "results option"

text \<open>
  \<^verbatim>\<open>__init__(json_data)\<close>: the lines it prints and the object it leaves, or the exception
  it raises. \<^verbatim>\<open>return None\<close> in \<^verbatim>\<open>__init__\<close> ends the initialisation; the object exists
  all the same, with the attributes assigned so far.
\<close>

definition unwrap :: "jval \<Rightarrow> py_error + jval" where
  "unwrap d =
     (case d of
        JList xs \<Rightarrow> Inr d
      | JDict kvs \<Rightarrow> Inr (dict_get kvs ''policies'' (dict_get kvs ''Policy'' (JList [])))
      | _ \<Rightarrow> Inl (AttributeError ''get''))"

definition init :: "jval \<Rightarrow> string list \<times> (py_error + auditor)" where
  "init json_data =
     (let a = \<lparr> a_data = None, a_policies = None, a_results = None \<rparr>;
          a = (if py_truthy json_data then a\<lparr>a_data := Some json_data\<rparr> else a)
      in case a_data a of
           None \<Rightarrow> ([], Inl (AttributeError ''data''))
         | Some d \<Rightarrow>
             (case unwrap d of
                Inl err \<Rightarrow> ([], Inl err)
              | Inr pol \<Rightarrow>
                  (let a = a\<lparr>a_policies := Some pol\<rparr> in
                   if \<not> py_truthy pol
                   then ([''ERROR: No policies found in JSON'',
                          ''STOP - Invalid or empty JSON structure''], Inr a)
                   else ([], Inr (a\<lparr>a_results := Some empty_results\<rparr>)))))"

text \<open>
  \<^verbatim>\<open>enumerate(self.policies)\<close> with \<^verbatim>\<open>policy.get\<close> called on every element: only a
  dictionary has \<^verbatim>\<open>get\<close>, and only lists, dictionaries and strings can be iterated.
\<close>

fun dict_of :: "jval \<Rightarrow> policy option" where
  "dict_of (JDict kvs) = Some kvs"
| "dict_of v = None"

definition iter_policies :: "jval \<Rightarrow> py_error + policy list" where
  "iter_policies pv =
     (case pv of
        JList xs \<Rightarrow>
          (case those (map dict_of xs) of
             None \<Rightarrow> Inl (AttributeError ''get'')
           | Some ps \<Rightarrow> Inr ps)
      | JDict kvs \<Rightarrow> (if kvs = [] then Inr [] else Inl (AttributeError ''get''))
      | JStr s \<Rightarrow> (if s = [] then Inr [] else Inl (AttributeError ''get''))
      | _ \<Rightarrow> Inl (TypeError ''enumerate''))"

text \<open>
  An audit method: it loops over \<^verbatim>\<open>self.policies\<close>, then stores its findings in
  \<^verbatim>\<open>self.results\<close>.
\<close>

definition audit_method :: "(policy list \<Rightarrow> results \<Rightarrow> results) \<Rightarrow> auditor \<Rightarrow> py_error + auditor" where
  "audit_method store a =
     (case a_policies a of
        None \<Rightarrow> Inl (AttributeError ''policies'')
      | Some pv \<Rightarrow>
          (case iter_policies pv of
             Inl err \<Rightarrow> Inl err
           | Inr ps \<Rightarrow>
               (case a_results a of
                  None \<Rightarrow> Inl (AttributeError ''results'')
                | Some res \<Rightarrow> Inr (a\<lparr>a_results := Some (store ps res)\<rparr>))))"

definition run_audit_unused_rules :: "auditor \<Rightarrow> py_error + auditor" where
  "run_audit_unused_rules =
     audit_method (\<lambda>ps res. res\<lparr>unused_rules := Some (audit_unused_rules ps)\<rparr>)"

definition run_audit_permissive_rules :: "auditor \<Rightarrow> py_error + auditor" where
  "run_audit_permissive_rules =
     audit_method (\<lambda>ps res. res\<lparr>all_all_rules := Some (fst (audit_permissive_rules ps)),
                                single_all_rules := Some (snd (audit_permissive_rules ps))\<rparr>)"

definition run_audit_duplicate_rules :: "auditor \<Rightarrow> py_error + auditor" where
  "run_audit_duplicate_rules =
     audit_method (\<lambda>ps res. res\<lparr>duplicate_rules := Some (audit_duplicate_rules ps)\<rparr>)"

definition run_audit_logging :: "auditor \<Rightarrow> py_error + auditor" where
  "run_audit_logging =
     audit_method (\<lambda>ps res. res\<lparr>logging :=
        Some \<lparr> no_logging = fst (audit_logging ps), with_logging = snd (audit_logging ps) \<rparr>\<rparr>)"

definition bind_err :: "py_error + 'a \<Rightarrow> ('a \<Rightarrow> py_error + 'b) \<Rightarrow> py_error + 'b" where
  "bind_err r f = (case r of Inl err \<Rightarrow> Inl err | Inr x \<Rightarrow> f x)"

text \<open>The results map once the four audit methods have stored their findings.\<close>

definition all_results :: "policy list \<Rightarrow> results \<Rightarrow> results" where
  "all_results ps res =
     res\<lparr> unused_rules := Some (audit_unused_rules ps),
          all_all_rules := Some (fst (audit_permissive_rules ps)),
          single_all_rules := Some (snd (audit_permissive_rules ps)),
          duplicate_rules := Some (audit_duplicate_rules ps),
          logging := Some \<lparr> no_logging = fst (audit_logging ps),
                             with_logging = snd (audit_logging ps) \<rparr> \<rparr>"

text \<open>
  \<^verbatim>\<open>generate_json_report\<close>: the four audits in the order of the source, then the report.
  The result is the report and whether it was written to the file (\<^verbatim>\<open>output_file\<close> or
  \<^verbatim>\<open>None\<close> in the source).
\<close>

definition report_of :: "env \<Rightarrow> auditor \<Rightarrow> py_error + report" where
  "report_of e a =
     bind_err (run_audit_unused_rules a) (\<lambda>a.
     bind_err (run_audit_permissive_rules a) (\<lambda>a.
     bind_err (run_audit_duplicate_rules a) (\<lambda>a.
     bind_err (run_audit_logging a) (\<lambda>a.
       (case a_policies a of
          None \<Rightarrow> Inl (AttributeError ''policies'')
        | Some pv \<Rightarrow>
            bind_err (iter_policies pv) (\<lambda>ps.
              (case a_results a of
                 None \<Rightarrow> Inl (AttributeError ''results'')
               | Some res \<Rightarrow> build_report e (length ps) res)))))))"

definition generate_json_report :: "env \<Rightarrow> auditor \<Rightarrow> string list \<times> (py_error + report \<times> bool)" where
  "generate_json_report e a =
     (case report_of e a of
        Inl err \<Rightarrow> ([''Generating JSON audit report...''], Inl err)
      | Inr rep \<Rightarrow>
          (if can_write e
           then ([''Generating JSON audit report...'',
                  ''Audit saved in: firewall_audit_report.json''], Inr (rep, True))
           else ([''Generating JSON audit report...'', ''Error saving audit report''],
                 Inr (rep, False))))"

text \<open>
  \<^verbatim>\<open>main\<close>, from the loaded document on (\<open>JNull\<close> when the file could not be read): the
  lines printed and how the run ends. The banner, the pauses and the decoration of the
  messages are left out.
\<close>

datatype outcome =
    No_data
  | Init_failed
  | Raised py_error
  | Report_written report
  | Report_not_written report

definition main :: "env \<Rightarrow> jval \<Rightarrow> string list \<times> outcome" where
  "main e user_data =
     (if \<not> py_truthy user_data
      then ([''Fatal error: No JSON data or the JSON format is invalid.''], No_data)
      else
        (case init user_data of
           (out1, Inl err) \<Rightarrow> (out1, Raised err)
         | (out1, Inr a) \<Rightarrow>
             (if a_policies a = None
              then (out1 @ [''Failed to initialize auditor: invalid or incomplete JSON data.''],
                    Init_failed)
              else
                (case generate_json_report e a of
                   (out2, Inl err) \<Rightarrow>
                     (out1 @ [''Performing analysis on your actual data...''] @ out2, Raised err)
                 | (out2, Inr (rep, True)) \<Rightarrow>
                     (out1 @ [''Performing analysis on your actual data...''] @ out2
                        @ [''Report generated successfully named: firewall_audit_report.json''],
                      Report_written rep)
                 | (out2, Inr (rep, False)) \<Rightarrow>
                     (out1 @ [''Performing analysis on your actual data...''] @ out2
                        @ [''FAILED to generate JSON report, please check the logs for errors.''],
                      Report_not_written rep)))))"

section \<open>Order of first occurrence\<close>

text \<open>
  The elements of a list in the order in which each is met first: the head, then the
  elements of the tail in the order of their first occurrence, without the head.
\<close>

fun first_seen :: "'a list \<Rightarrow> 'a list" where
  "first_seen [] = []"
| "first_seen (x # xs) = x # filter (\<lambda>y. y \<noteq> x) (first_seen xs)"

text \<open>
  Grouping a list of key-value pairs by key: one group for each key, in the order of the
  first occurrence of the keys, each group holding the values of its key in the order of
  the list.
\<close>

definition grouped :: "('k \<times> 'v) list \<Rightarrow> ('k \<times> 'v list) list" where
  "grouped kvs =
     map (\<lambda>k. (k, map snd (filter (\<lambda>kv. fst kv = k) kvs))) (first_seen (map fst kvs))"

text \<open>
  The signature and the member entry of every record whose action is \<^verbatim>\<open>ACCEPT\<close>, in the
  order of the input (the records the first loop of \<^verbatim>\<open>audit_duplicate_rules\<close> does not
  skip).
\<close>

definition accept_entries :: "nat \<Rightarrow> policy list \<Rightarrow> (string \<times> dup_member) list" where
  "accept_entries i ps =
     map (\<lambda>(j, p). (signature_of p, member_of j p))
       (filter (\<lambda>(j, p). action_upper p = ''ACCEPT'') (enumerate i ps))"

section \<open>Trimmed text and words in any case\<close>

text \<open>
  \<open>t\<close> is \<open>s\<close> without its leading and trailing white space: \<open>s\<close> is \<open>t\<close> between a
  prefix and a suffix of white space, and \<open>t\<close> neither starts nor ends with white space.
\<close>

definition trimmed :: "string \<Rightarrow> string \<Rightarrow> bool" where
  "trimmed s t \<longleftrightarrow>
     (\<exists>l \<in> set (prefixes s). \<exists>r \<in> set (suffixes s).
         s = l @ t @ r \<and> list_all is_space l \<and> list_all is_space r)
     \<and> (t = [] \<or> (\<not> is_space (hd t) \<and> \<not> is_space (last t)))"

text \<open>
  \<open>t\<close> spells the lower-case word \<open>w\<close> in some mix of cases: letter by letter, the
  character of \<open>t\<close> is the letter of \<open>w\<close> or its capital, 32 code points below.
\<close>

definition spelt :: "string \<Rightarrow> string \<Rightarrow> bool" where
  "spelt t w \<longleftrightarrow> list_all2 (\<lambda>c l. c = l \<or> (of_char c :: nat) + 32 = of_char l) t w"

section \<open>Example records\<close>

text \<open>
  Rule records used to run the definitions on concrete input: a rule with two wildcards
  that carried no traffic and is not logged, a rule whose fields only contain the
  letters of a wildcard, a rule with no field but its action, and a rule that denies.
\<close>

definition rule_a :: policy where
  "rule_a =
     [(''Policy'', JStr ''web''), (''Action'', JStr ''ACCEPT''), (''Source'', JStr ''all''),
      (''Destination'', JStr ''10.0.0.0/8''), (''Service'', JStr ''any''),
      (''Bytes'', JStr ''0 B''), (''Log'', JStr ''disable'')]"

definition rule_b :: policy where
  "rule_b =
     [(''Action'', JStr ''accept''), (''Source'', JStr ''ALL-EXCEPT-DMZ''),
      (''Destination'', JStr ''10.1.1.1''), (''Service'', JStr ''Call-Center''),
      (''Bytes'', JStr ''15420 MB''), (''Log'', JStr ''utm'')]"

definition rule_c :: policy where
  "rule_c = [(''Action'', JStr ''Accept'')]"

definition rule_d :: policy where
  "rule_d =
     [(''Action'', JStr ''DENY''), (''Source'', JStr ''all''), (''Destination'', JStr ''all''),
      (''Service'', JStr ''ALL''), (''Bytes'', JStr ''0 B'')]"

text \<open>
  A rule that differs from \<open>rule_a\<close> by white space around its fields (a no-break space
  among it) and by the case of its action and of its log setting, a rule with white space
  inside its log setting, and a rule whose traffic counter is a number below the smallest
  positive double.
\<close>

definition rule_w :: policy where
  "rule_w =
     [(''Policy'', JStr ''web2''), (''Action'', JStr ''accept''),
      (''Source'', JStr ('' all'' @ [CHR 0xA0])),
      (''Destination'', JStr (CHR 0x09 # ''10.0.0.0/8 '')), (''Service'', JStr ''any  ''),
      (''Bytes'', JStr ''7 KB''), (''Log'', JStr (CHR 0x85 # '' DisAble '' @ [CHR 0xA0]))]"

definition rule_u :: policy where
  "rule_u = [(''Action'', JStr ''DENY''), (''Log'', JStr '' No ne  '')]"

definition tiny_bytes :: string where
  "tiny_bytes = ''0.'' @ replicate 323 (CHR ''0'') @ ''1 B''"

definition rule_t :: policy where
  "rule_t = [(''Action'', JStr ''ACCEPT''), (''Bytes'', JStr tiny_bytes)]"

text \<open>
  The results map of the four audits over the single rule \<open>rule_c\<close>, and an
  environment.
\<close>

definition example_results :: results where
  "example_results =
     \<lparr> unused_rules = Some [unused_entry 0 rule_c],
       all_all_rules = Some [(rule_info_of 0 rule_c)\<lparr>r_risk_level := Some ''CRITICAL''\<rparr>],
       single_all_rules = Some [],
       duplicate_rules = Some [],
       logging = Some \<lparr> no_logging = [log_info_of 0 rule_c], with_logging = [] \<rparr> \<rparr>"

definition example_env :: env where
  "example_env =
     \<lparr> now = ''2025-01-01 00:00:00'', can_write = True \<rparr>"

section \<open>Comparing without case\<close>

lemma of_char_upper_char:
  "(of_char (upper_char c) :: nat) =
     (if (97 \<le> (of_char c :: nat) \<and> (of_char c :: nat) \<le> 122)
         \<or> (224 \<le> (of_char c :: nat) \<and> (of_char c :: nat) \<le> 254 \<and> (of_char c :: nat) \<noteq> 247)
      then of_char c - 32 else of_char c)"
proof -
  have lt: "(of_char c :: nat) < 256" by simp
  have m: "((of_char c :: nat) - 32) mod 256 = of_char c - 32"
    by (rule mod_less) (use lt in linarith)
  show ?thesis
    by (simp add: upper_char_def m)
qed

lemma of_char_lower_char:
  "(of_char (lower_char c) :: nat) =
     (if (65 \<le> (of_char c :: nat) \<and> (of_char c :: nat) \<le> 90)
         \<or> (192 \<le> (of_char c :: nat) \<and> (of_char c :: nat) \<le> 222 \<and> (of_char c :: nat) \<noteq> 215)
      then of_char c + 32 else of_char c)"
proof -
  have m: "(of_char c :: nat) \<le> 222 \<Longrightarrow> ((of_char c :: nat) + 32) mod 256 = of_char c + 32"
    by (rule mod_less) linarith
  show ?thesis
    using m by (auto simp add: lower_char_def)
qed

lemma upper_char_eq_iff:
  assumes "65 \<le> (of_char U :: nat)" "(of_char U :: nat) \<le> 90"
  shows "upper_char c = U \<longleftrightarrow> lower_char c = char_of ((of_char U :: nat) + 32)"
proof -
  have m2: "(of_char (char_of ((of_char U :: nat) + 32) :: char) :: nat) = of_char U + 32"
  proof -
    have "((of_char U :: nat) + 32) mod 256 = of_char U + 32"
      by (rule mod_less) (use assms in linarith)
    then show ?thesis by simp
  qed
  have "upper_char c = U \<longleftrightarrow> (of_char (upper_char c) :: nat) = of_char U"
    by (simp only: of_char_eq_iff)
  also have "\<dots> \<longleftrightarrow> (of_char (lower_char c) :: nat) = of_char U + 32"
    unfolding of_char_upper_char of_char_lower_char using assms by auto
  also have "\<dots> \<longleftrightarrow> (of_char (lower_char c) :: nat) = of_char (char_of ((of_char U :: nat) + 32) :: char)"
    by (simp only: m2)
  also have "\<dots> \<longleftrightarrow> lower_char c = char_of ((of_char U :: nat) + 32)"
    by (simp only: of_char_eq_iff)
  finally show ?thesis .
qed

lemma char_of_lower_letters:
  "char_of (97 :: nat) = CHR ''a''" "char_of (99 :: nat) = CHR ''c''" "char_of (101 :: nat) = CHR ''e''"
  "char_of (112 :: nat) = CHR ''p''" "char_of (116 :: nat) = CHR ''t''"
  by code_simp+

lemma upper_char_ACCEPT:
  "upper_char c = CHR ''A'' \<longleftrightarrow> lower_char c = CHR ''a''"
  "upper_char c = CHR ''C'' \<longleftrightarrow> lower_char c = CHR ''c''"
  "upper_char c = CHR ''E'' \<longleftrightarrow> lower_char c = CHR ''e''"
  "upper_char c = CHR ''P'' \<longleftrightarrow> lower_char c = CHR ''p''"
  "upper_char c = CHR ''T'' \<longleftrightarrow> lower_char c = CHR ''t''"
  using upper_char_eq_iff [of "CHR ''A''" c] upper_char_eq_iff [of "CHR ''C''" c]
    upper_char_eq_iff [of "CHR ''E''" c] upper_char_eq_iff [of "CHR ''P''" c]
    upper_char_eq_iff [of "CHR ''T''" c]
  by (simp_all add: char_of_lower_letters)

text \<open>
  A text without sharp s is upper-cased character by character; a text with one has an
  \<^verbatim>\<open>S\<close> in its upper case and the sharp s in its lower case.
\<close>

lemma upper_no_sharp_s:
  "\<forall>c \<in> set s. (of_char c :: nat) \<noteq> 223 \<Longrightarrow> upper s = map upper_char s"
  by (induction s) (simp_all add: upper_def)

lemma upper_sharp_s:
  "c \<in> set s \<Longrightarrow> (of_char c :: nat) = 223 \<Longrightarrow> CHR ''S'' \<in> set (upper s)"
  by (induction s) (auto simp add: upper_def)

lemma lower_sharp_s:
  assumes "c \<in> set s" "(of_char c :: nat) = 223"
  shows "\<exists>d \<in> set (lower s). (of_char d :: nat) = 223"
proof -
  have "(of_char (lower_char c) :: nat) = 223"
    using assms(2) by (simp add: of_char_lower_char)
  moreover have "lower_char c \<in> set (lower s)"
    using assms(1) by (simp add: lower_def)
  ultimately show ?thesis by blast
qed

lemma upper_ACCEPT_iff: "upper s = ''ACCEPT'' \<longleftrightarrow> lower s = ''accept''"
proof (cases "\<forall>c \<in> set s. (of_char c :: nat) \<noteq> 223")
  case True
  then have "upper s = map upper_char s" by (rule upper_no_sharp_s)
  then show ?thesis
    by (simp add: lower_def map_eq_Cons_conv upper_char_ACCEPT)
next
  case False
  then obtain c where c: "c \<in> set s" "(of_char c :: nat) = 223" by blast
  have "CHR ''S'' \<in> set (upper s)" using c by (rule upper_sharp_s)
  then have u: "upper s \<noteq> ''ACCEPT''" by auto
  obtain d where d: "d \<in> set (lower s)" "(of_char d :: nat) = 223"
    using lower_sharp_s [OF c] by blast
  have "lower s \<noteq> ''accept''"
  proof
    assume "lower s = ''accept''"
    with d(1) have "d \<in> set ''accept''" by simp
    with d(2) show False by auto
  qed
  with u show ?thesis by simp
qed

section \<open>White space and case, by their effect\<close>

lemma trimmed_iff:
  "trimmed s t \<longleftrightarrow>
     (\<exists>l r. s = l @ t @ r \<and> (\<forall>c \<in> set l. is_space c) \<and> (\<forall>c \<in> set r. is_space c))
     \<and> (t = [] \<or> (\<not> is_space (hd t) \<and> \<not> is_space (last t)))"
proof -
  have "(\<exists>l \<in> set (prefixes s). \<exists>r \<in> set (suffixes s).
           s = l @ t @ r \<and> list_all is_space l \<and> list_all is_space r)
      \<longleftrightarrow> (\<exists>l r. s = l @ t @ r \<and> (\<forall>c \<in> set l. is_space c) \<and> (\<forall>c \<in> set r. is_space c))"
    (is "?L \<longleftrightarrow> ?R")
  proof
    assume ?L
    then show ?R by (auto simp: list_all_iff)
  next
    assume ?R
    then obtain l r where e: "s = l @ t @ r" and sp: "\<forall>c \<in> set l. is_space c" "\<forall>c \<in> set r. is_space c"
      by blast
    have "prefix l s" using e by simp
    then have lp: "l \<in> set (prefixes s)" by (simp only: in_set_prefixes)
    have "suffix r s" using e by (simp add: suffix_def)
    then have rs: "r \<in> set (suffixes s)" by (simp only: in_set_suffixes)
    have la: "list_all is_space l" "list_all is_space r"
      using sp by (simp_all only: list_all_iff)
    from lp rs e la show ?L by blast
  qed
  then show ?thesis by (simp only: trimmed_def)
qed

lemma strip_trimmed: "trimmed s (strip s)"
proof -
  define l where "l = takeWhile is_space s"
  define s' where "s' = dropWhile is_space s"
  define r where "r = rev (takeWhile is_space (rev s'))"
  define t where "t = rev (dropWhile is_space (rev s'))"
  have st: "strip s = t" by (simp add: strip_def t_def s'_def)
  have e1: "s = l @ s'" by (simp add: l_def s'_def)
  have "t @ r = rev (takeWhile is_space (rev s') @ dropWhile is_space (rev s'))"
    unfolding t_def r_def by (simp only: rev_append)
  also have "\<dots> = rev (rev s')" by (simp only: takeWhile_dropWhile_id)
  also have "\<dots> = s'" by simp
  finally have e2: "s' = t @ r" by (rule sym)
  have sl: "\<forall>c \<in> set l. is_space c"
    unfolding l_def by (auto dest: set_takeWhileD)
  have sr: "\<forall>c \<in> set r. is_space c"
    unfolding r_def by (auto dest: set_takeWhileD)
  have ends: "\<not> is_space (hd t) \<and> \<not> is_space (last t)" if ne: "t \<noteq> []"
  proof -
    have "s' \<noteq> []" using e2 ne by simp
    then have "\<not> is_space (hd s')" unfolding s'_def by (rule hd_dropWhile)
    moreover have "hd s' = hd t" using e2 ne by simp
    ultimately have h: "\<not> is_space (hd t)" by simp
    have "dropWhile is_space (rev s') \<noteq> []" using ne by (simp add: t_def)
    then have "\<not> is_space (hd (dropWhile is_space (rev s')))" by (rule hd_dropWhile)
    moreover have "last t = hd (dropWhile is_space (rev s'))"
      unfolding t_def by (simp add: last_rev)
    ultimately show ?thesis using h by simp
  qed
  have "s = l @ t @ r" using e1 e2 by simp
  with sl sr ends show ?thesis unfolding st trimmed_iff by blast
qed

lemma trimmed_strip:
  assumes "trimmed s t"
  shows "strip s = t"
proof -
  from assms obtain l r where e: "s = l @ t @ r"
    and sl: "\<forall>c \<in> set l. is_space c" and sr: "\<forall>c \<in> set r. is_space c"
    and ends: "t = [] \<or> (\<not> is_space (hd t) \<and> \<not> is_space (last t))"
    unfolding trimmed_iff by blast
  show ?thesis
  proof (cases "t = []")
    case True
    then have "\<forall>c \<in> set s. is_space c" using e sl sr by auto
    then have dw: "dropWhile is_space s = []" by (simp only: dropWhile_eq_Nil_conv)
    show ?thesis unfolding strip_def dw using True by simp
  next
    case False
    then obtain a t' where t: "t = a # t'" by (cases t) auto
    have na: "\<not> is_space a" using ends False t by simp
    have "dropWhile is_space s = dropWhile is_space (t @ r)"
      unfolding e using sl by (simp add: dropWhile_append2)
    also have "\<dots> = t @ r" using t na by simp
    finally have d: "dropWhile is_space s = t @ r" .
    have rt: "rev t \<noteq> []" "hd (rev t) = last t" using False by (simp_all add: hd_rev)
    then obtain b u where u: "rev t = b # u" by (cases "rev t") auto
    have nb: "\<not> is_space b" using ends False rt u by simp
    have "dropWhile is_space (rev (t @ r)) = dropWhile is_space (rev r @ rev t)" by simp
    also have "\<dots> = dropWhile is_space (rev t)"
    proof (rule dropWhile_append2)
      fix x assume "x \<in> set (rev r)"
      then show "is_space x" using sr by simp
    qed
    also have "\<dots> = rev t" using u nb by simp
    finally have "rev (dropWhile is_space (rev (t @ r))) = t" by simp
    then show ?thesis unfolding strip_def d .
  qed
qed

lemma lower_char_eq_letter:
  assumes "97 \<le> (of_char l :: nat)" "(of_char l :: nat) \<le> 122"
  shows "lower_char c = l \<longleftrightarrow> c = l \<or> (of_char c :: nat) + 32 = of_char l"
proof -
  have "lower_char c = l \<longleftrightarrow> (of_char (lower_char c) :: nat) = of_char l"
    by (simp only: of_char_eq_iff)
  also have "\<dots> \<longleftrightarrow> (of_char c :: nat) = of_char l \<or> (of_char c :: nat) + 32 = of_char l"
    unfolding of_char_lower_char using assms by auto
  also have "\<dots> \<longleftrightarrow> c = l \<or> (of_char c :: nat) + 32 = of_char l"
    by (simp only: of_char_eq_iff)
  finally show ?thesis .
qed

lemma lower_eq_spelt:
  "\<forall>l \<in> set w. 97 \<le> (of_char l :: nat) \<and> (of_char l :: nat) \<le> 122 \<Longrightarrow>
     lower t = w \<longleftrightarrow> spelt t w"
proof (induction t arbitrary: w)
  case Nil
  show ?case by (auto simp: lower_def spelt_def)
next
  case (Cons c t)
  show ?case
  proof (cases w)
    case Nil
    then show ?thesis by (simp add: lower_def spelt_def)
  next
    case (Cons l w')
    have r: "\<forall>l \<in> set w'. 97 \<le> (of_char l :: nat) \<and> (of_char l :: nat) \<le> 122"
      and b: "97 \<le> (of_char l :: nat)" "(of_char l :: nat) \<le> 122"
      using Cons.prems Cons by simp_all
    have "lower t = w' \<longleftrightarrow> spelt t w'" using r by (rule Cons.IH)
    then have "map lower_char t = w' \<longleftrightarrow>
        list_all2 (\<lambda>c l. c = l \<or> (of_char c :: nat) + 32 = of_char l) t w'"
      by (simp add: lower_def spelt_def)
    with lower_char_eq_letter [OF b, of c] show ?thesis
      using Cons by (simp add: lower_def spelt_def)
  qed
qed

lemma lower_words:
  "lower t = ''none'' \<longleftrightarrow> spelt t ''none''" "lower t = ''disable'' \<longleftrightarrow> spelt t ''disable''"
  "lower t = ''accept'' \<longleftrightarrow> spelt t ''accept''"
  by (rule lower_eq_spelt, simp)+

lemma lower_empty_iff: "lower t = [] \<longleftrightarrow> t = []"
  by (simp add: lower_def)

section \<open>The loops as filters over the enumerated input\<close>

lemma unused_loop_eq:
  "unused_loop i ps acc =
     acc @ map (\<lambda>(j, p). unused_entry j p)
             (filter (\<lambda>(j, p). bytes_value_of p = Finite 0 \<and> action_upper p = ''ACCEPT'') (enumerate i ps))"
  by (induction ps arbitrary: i acc) simp_all

lemma permissive_loop_eq:
  "permissive_loop i ps (aa, sa) =
     (aa @ map (\<lambda>(j, p). (rule_info_of j p)\<lparr>r_risk_level := Some ''CRITICAL''\<rparr>)
             (filter (\<lambda>(j, p). action_upper p = ''ACCEPT'' \<and> src_any p \<and> dst_any p \<and> srv_any p)
                (enumerate i ps)),
      sa @ map (\<lambda>(j, p). (rule_info_of j p)\<lparr>r_risk_level := Some ''HIGH''\<rparr>)
             (filter (\<lambda>(j, p). action_upper p = ''ACCEPT'' \<and> (src_any p \<or> dst_any p \<or> srv_any p)
                        \<and> \<not> (src_any p \<and> dst_any p \<and> srv_any p))
                (enumerate i ps)))"
  by (induction ps arbitrary: i aa sa) auto

lemma logging_loop_eq:
  "logging_loop i ps (nl, wl) =
     (nl @ map (\<lambda>(j, p). log_info_of j p)
             (filter (\<lambda>(j, p). log_setting_of p \<in> set [[], ''none'', ''disable'']) (enumerate i ps)),
      wl @ map (\<lambda>(j, p). log_info_of j p)
             (filter (\<lambda>(j, p). log_setting_of p \<notin> set [[], ''none'', ''disable'']) (enumerate i ps)))"
  by (induction ps arbitrary: i nl wl) auto

lemma set_map_filter_enumerate:
  "set (map (\<lambda>(j, p). f j p) (filter (\<lambda>(j, p). P p) (enumerate 0 ps))) =
     {f i (ps ! i) | i. i < length ps \<and> P (ps ! i)}"
proof -
  have "set (filter (\<lambda>(j, p). P p) (enumerate 0 ps)) = {(i, ps ! i) | i. i < length ps \<and> P (ps ! i)}"
    by (auto simp: in_set_enumerate_eq)
  then show ?thesis
    by (auto simp: image_iff)
qed

lemma distinct_ids_filter_enumerate:
  assumes "\<And>j p. g (f j p) = Suc j"
  shows "distinct (map g (map (\<lambda>(j, p). f j p) (filter (\<lambda>(j, p). P p) (enumerate 0 ps))))"
proof -
  define ys where "ys = map fst (filter (\<lambda>(j, p). P p) (enumerate 0 ps))"
  have eq: "map g (map (\<lambda>(j, p). f j p) (filter (\<lambda>(j, p). P p) (enumerate 0 ps))) = map Suc ys"
    unfolding ys_def using assms by (simp add: case_prod_beta)
  have "distinct ys"
    unfolding ys_def by (rule distinct_map_filter) simp
  then have "distinct (map Suc ys)"
    by (simp add: distinct_map)
  with eq show ?thesis
    by simp
qed

lemma set_ids_filter_enumerate:
  assumes "\<And>j p. g (f j p) = Suc j"
  shows "set (map g (map (\<lambda>(j, p). f j p) (filter (\<lambda>(j, p). P p) (enumerate 0 ps)))) =
     {Suc k | k. k < length ps \<and> P (ps ! k)}"
proof -
  have "set (map g (map (\<lambda>(j, p). f j p) (filter (\<lambda>(j, p). P p) (enumerate 0 ps))))
      = g ` set (map (\<lambda>(j, p). f j p) (filter (\<lambda>(j, p). P p) (enumerate 0 ps)))"
    by (simp only: set_map)
  also have "\<dots> = g ` {f i (ps ! i) | i. i < length ps \<and> P (ps ! i)}"
    by (simp only: set_map_filter_enumerate)
  also have "\<dots> = {g (f i (ps ! i)) | i. i < length ps \<and> P (ps ! i)}"
    by blast
  also have "\<dots> = {Suc k | k. k < length ps \<and> P (ps ! k)}"
    by (simp only: assms)
  finally show ?thesis .
qed

section \<open>Floats: exact integers, underflow and overflow\<close>

lemma scale_small:
  "0 < a \<Longrightarrow> 0 < b \<Longrightarrow> a < 2 ^ 53 * b \<Longrightarrow> \<exists>u. scale a b = (a * 2 ^ u, b)"
proof (induction a b rule: scale.induct)
  case (1 a b)
  note p = "1.prems"
  have nz: "\<not> (a = 0 \<or> b = 0)" using p by simp
  show ?case
  proof (cases "a < 2 ^ 52 * b")
    case True
    have e: "scale a b = scale (2 * a) b"
      using nz True by (subst scale.simps) simp
    have "2 * a < 2 ^ 53 * b" using True by simp
    from "1.IH"(1) [OF nz True _ p(2) this] p(1)
    obtain u where "scale (2 * a) b = (2 * a * 2 ^ u, b)" by auto
    with e have "scale a b = (a * 2 ^ Suc u, b)" by simp
    then show ?thesis by blast
  next
    case False
    have "scale a b = (a, b)"
      using nz False p(3) by (subst scale.simps) simp
    then have "scale a b = (a * 2 ^ 0, b)" by simp
    then show ?thesis by blast
  qed
qed

lemma round_half_even_one: "round_half_even a (Suc 0) = a"
  by (simp add: round_half_even_def)

lemma py_float_of_small:
  assumes "a < 2 ^ 53"
  shows "py_float_of a 1 = Finite (of_nat a)"
proof (cases "a = 0")
  case True
  then show ?thesis by (simp add: py_float_of_def)
next
  case False
  then have pos: "0 < a" by simp
  obtain u where u: "scale a 1 = (a * 2 ^ u, 1)"
    using scale_small [of a 1] pos assms by auto
  have nd: "nearest_double a 1 = (a * 2 ^ u, 2 ^ u)"
    using False pos u by (simp add: nearest_double_def round_half_even_one)
  have "(2::nat) ^ 53 \<le> 2 ^ 1024" by (rule power_increasing) simp_all
  with assms have lt: "a < 2 ^ 1024" by linarith
  then have "a * 2 ^ u < 2 ^ 1024 * 2 ^ u" by simp
  then have big: "\<not> 2 ^ 1024 * 2 ^ u \<le> a * 2 ^ u" by simp
  have q: "(of_nat (a * 2 ^ u) :: rat) / of_nat (2 ^ u) = of_nat a" by simp
  show ?thesis
    unfolding py_float_of_def nd using False pos lt big q by simp
qed

lemma round_half_even_below_half: "2 * a < b \<Longrightarrow> round_half_even a b = 0"
  by (simp add: round_half_even_def)

lemma py_float_of_underflow:
  assumes "a * 2 ^ 1075 < b"
  shows "py_float_of a b = Finite 0"
proof (cases "a = 0")
  case True
  then show ?thesis by (simp add: py_float_of_def)
next
  case False
  have "a * 2 ^ 1022 \<le> a * 2 ^ 1075"
    by (rule mult_le_mono2) (rule power_increasing, simp_all)
  with assms have lt: "a * 2 ^ 1022 < b" by linarith
  have "2 * (a * 2 ^ 1074) = a * 2 ^ Suc 1074" by simp
  also have "\<dots> = a * 2 ^ 1075" by simp
  finally have "2 * (a * 2 ^ 1074) < b" using assms by simp
  then have "round_half_even (a * 2 ^ 1074) b = 0" by (rule round_half_even_below_half)
  with False lt show ?thesis by (simp add: py_float_of_def)
qed

lemma py_float_of_overflow:
  assumes "0 < b" "2 ^ 1024 * b \<le> a"
  shows "py_float_of a b = Infinity"
proof -
  have one: "(1::nat) \<le> 2 ^ 1024" "(1::nat) \<le> 2 ^ 1022" by simp_all
  have "b \<le> 2 ^ 1024 * b" using one(1) by simp
  with assms have ba: "b \<le> a" by linarith
  then have nz: "a \<noteq> 0" using assms(1) by linarith
  have "a \<le> a * 2 ^ 1022" using one(2) by simp
  with ba have "\<not> a * 2 ^ 1022 < b" by linarith
  with nz assms(2) show ?thesis by (simp add: py_float_of_def)
qed

section \<open>The number search\<close>

lemma dropWhile_no_digit:
  assumes "\<forall>c \<in> set pre. \<not> is_digit c" "ds \<noteq> []" "\<forall>c \<in> set ds. is_digit c"
  shows "dropWhile (\<lambda>c. \<not> is_digit c) (pre @ ds @ rest) = ds @ rest"
proof -
  have "dropWhile (\<lambda>c. \<not> is_digit c) (pre @ ds @ rest) = dropWhile (\<lambda>c. \<not> is_digit c) (ds @ rest)"
    using assms(1) by (simp add: dropWhile_append2)
  moreover obtain d ds' where "ds = d # ds'" using assms(2) by (cases ds) auto
  ultimately show ?thesis using assms(3) by simp
qed

lemma takeWhile_digits:
  assumes "\<forall>c \<in> set ds. is_digit c" "rest = [] \<or> \<not> is_digit (hd rest)"
  shows "takeWhile is_digit (ds @ rest) = ds" "dropWhile is_digit (ds @ rest) = rest"
proof -
  have t: "takeWhile is_digit rest = []" "dropWhile is_digit rest = rest"
    using assms(2) by (cases rest; simp)+
  show "takeWhile is_digit (ds @ rest) = ds"
    using assms(1) t by (simp add: takeWhile_append2)
  show "dropWhile is_digit (ds @ rest) = rest"
    using assms(1) t by (simp add: dropWhile_append2)
qed

lemma re_search_number_none:
  assumes "\<forall>c \<in> set s. \<not> is_digit c"
  shows "re_search_number s = None"
proof -
  have "dropWhile (\<lambda>c. \<not> is_digit c) s = []"
    using assms by simp
  then show ?thesis by (simp add: re_search_number_def)
qed

lemma not_digit_dot: "\<not> is_digit (CHR ''.'')"
  by (simp add: is_digit_def)

lemma re_search_number_int:
  assumes "\<forall>c \<in> set pre. \<not> is_digit c" "ds \<noteq> []" "\<forall>c \<in> set ds. is_digit c"
    and "rest = [] \<or> \<not> is_digit (hd rest)"
    and "\<not> (\<exists>r. rest = CHR ''.'' # r \<and> r \<noteq> [] \<and> is_digit (hd r))"
  shows "re_search_number (pre @ ds @ rest) = Some ds"
proof -
  have d: "dropWhile (\<lambda>c. \<not> is_digit c) (pre @ ds @ rest) = ds @ rest"
    using assms(1-3) by (rule dropWhile_no_digit)
  note t = takeWhile_digits [OF assms(3,4)]
  have ne: "(ds @ rest = []) = False" using assms(2) by simp
  show ?thesis
  proof (cases rest)
    case Nil
    show ?thesis unfolding re_search_number_def Let_def d t ne
      using Nil by simp
  next
    case (Cons c r)
    have "\<not> (c = CHR ''.'' \<and> takeWhile is_digit r \<noteq> [])"
    proof
      assume a: "c = CHR ''.'' \<and> takeWhile is_digit r \<noteq> []"
      then have "r \<noteq> []" by auto
      moreover from a have "is_digit (hd r)" by (cases r) (auto split: if_splits)
      ultimately show False using assms(5) Cons a by blast
    qed
    then show ?thesis unfolding re_search_number_def Let_def d t ne
      using Cons by simp
  qed
qed

lemma re_search_number_frac:
  assumes "\<forall>c \<in> set pre. \<not> is_digit c" "ds \<noteq> []" "\<forall>c \<in> set ds. is_digit c"
    and "fs \<noteq> []" "\<forall>c \<in> set fs. is_digit c"
    and "rest = [] \<or> \<not> is_digit (hd rest)"
  shows "re_search_number (pre @ ds @ CHR ''.'' # fs @ rest) = Some (ds @ CHR ''.'' # fs)"
proof -
  have d: "dropWhile (\<lambda>c. \<not> is_digit c) (pre @ ds @ CHR ''.'' # fs @ rest) = ds @ CHR ''.'' # fs @ rest"
    using assms(1-3) by (rule dropWhile_no_digit)
  have nd: "CHR ''.'' # fs @ rest = [] \<or> \<not> is_digit (hd (CHR ''.'' # fs @ rest))"
    using not_digit_dot by simp
  note t = takeWhile_digits [OF assms(3) nd]
  note f = takeWhile_digits(1) [OF assms(5,6)]
  have ne: "(ds @ CHR ''.'' # fs @ rest = []) = False" by simp
  show ?thesis
    unfolding re_search_number_def Let_def d t ne using f assms(4) by simp
qed

lemma py_float_int:
  assumes "\<forall>c \<in> set ds. is_digit c"
  shows "py_float ds = py_float_of (digits_value ds) 1"
proof -
  have t: "takeWhile is_digit ds = ds" "dropWhile is_digit ds = []"
    using assms by simp_all
  show ?thesis unfolding py_float_def Let_def t by simp
qed

lemma py_float_frac:
  assumes "\<forall>c \<in> set ds. is_digit c"
  shows "py_float (ds @ CHR ''.'' # fs) =
           py_float_of (digits_value ds * 10 ^ length fs + digits_value fs) (10 ^ length fs)"
proof -
  have nd: "CHR ''.'' # fs = [] \<or> \<not> is_digit (hd (CHR ''.'' # fs))"
    using not_digit_dot by simp
  note t = takeWhile_digits [OF assms nd]
  show ?thesis unfolding py_float_def Let_def t by simp
qed

lemma foldl_digits:
  "foldl (\<lambda>a c. 10 * a + ((of_char c :: nat) - 48)) n ds =
     n * 10 ^ length ds + foldl (\<lambda>a c. 10 * a + ((of_char c :: nat) - 48)) 0 ds"
proof (induction ds arbitrary: n)
  case Nil
  show ?case by simp
next
  case (Cons d ds)
  let ?f = "\<lambda>a c. 10 * a + ((of_char c :: nat) - 48)"
  define v where "v = (of_char d :: nat) - 48"
  define F where "F = foldl ?f 0 ds"
  have 1: "foldl ?f (10 * n + v) ds = (10 * n + v) * 10 ^ length ds + F"
    unfolding F_def by (rule Cons.IH)
  have 2: "foldl ?f v ds = v * 10 ^ length ds + F"
    unfolding F_def by (rule Cons.IH)
  have a: "foldl ?f n (d # ds) = foldl ?f (10 * n + v) ds" by (simp add: v_def)
  have b: "foldl ?f 0 (d # ds) = foldl ?f v ds" by (simp add: v_def)
  have "(10 * n + v) * 10 ^ length ds + F = n * 10 ^ length (d # ds) + (v * 10 ^ length ds + F)"
    by (simp add: algebra_simps)
  then show ?case
    unfolding a b 1 2 .
qed

lemma digits_value_append:
  "digits_value (xs @ ys) = digits_value xs * 10 ^ length ys + digits_value ys"
  unfolding digits_value_def foldl_append by (rule foldl_digits)

lemma digits_value_zeros: "digits_value (replicate n (CHR ''0'')) = 0"
  by (induction n) (simp_all add: digits_value_def)

section \<open>The example records, evaluated\<close>

lemma examples_action_upper:
  "action_upper rule_a = ''ACCEPT''" "action_upper rule_b = ''ACCEPT''"
  "action_upper rule_c = ''ACCEPT''" "action_upper rule_d = ''DENY''"
  "action_upper rule_w = ''ACCEPT''" "action_upper rule_t = ''ACCEPT''"
  by code_simp+

lemma examples_bytes_zero:
  "bytes_value_of rule_a = Finite 0" "bytes_value_of rule_c = Finite 0"
  "bytes_value_of rule_d = Finite 0"
  by (simp_all add: bytes_value_of_def rule_a_def rule_c_def rule_d_def dict_get_def
      extract_bytes_value_def)

lemma examples_bytes_used: "bytes_value_of rule_b = Finite 15420"
  using py_float_of_small [of 15420]
  by (simp add: bytes_value_of_def rule_b_def dict_get_def extract_bytes_value_def
      re_search_number_def py_float_def digits_value_def is_digit_def py_str_def)

lemma tiny_bytes_token:
  "re_search_number tiny_bytes = Some (''0'' @ CHR ''.'' # replicate 323 (CHR ''0'') @ ''1'')"
proof -
  have "re_search_number ([] @ ''0'' @ CHR ''.'' # (replicate 323 (CHR ''0'') @ ''1'') @ '' B'')
      = Some (''0'' @ CHR ''.'' # replicate 323 (CHR ''0'') @ ''1'')"
    by (rule re_search_number_frac) (simp_all add: is_digit_def)
  moreover have "tiny_bytes = [] @ ''0'' @ CHR ''.'' # (replicate 323 (CHR ''0'') @ ''1'') @ '' B''"
    by (simp add: tiny_bytes_def)
  ultimately show ?thesis by (simp only:)
qed

lemma tiny_bytes_float:
  "py_float (''0'' @ CHR ''.'' # replicate 323 (CHR ''0'') @ ''1'') = py_float_of 1 (10 ^ 324)"
proof -
  have d: "\<forall>c \<in> set ''0''. is_digit c" by (simp add: is_digit_def)
  have v: "digits_value ''0'' = 0" "digits_value ''1'' = 1" by (simp_all add: digits_value_def)
  show ?thesis
    unfolding py_float_frac [OF d] by (simp add: digits_value_append digits_value_zeros v)
qed

lemma extract_tiny_bytes: "extract_bytes_value (JStr tiny_bytes) = Finite 0"
proof -
  have ne: "tiny_bytes \<noteq> []" "tiny_bytes \<noteq> ''0 B''" by (simp_all add: tiny_bytes_def)
  have "extract_bytes_value (JStr tiny_bytes) =
      py_float (''0'' @ CHR ''.'' # replicate 323 (CHR ''0'') @ ''1'')"
    unfolding extract_bytes_value_def py_str_def using ne by (simp add: tiny_bytes_token)
  also have "\<dots> = py_float_of 1 (10 ^ 324)" by (rule tiny_bytes_float)
  also have "\<dots> = Finite 0"
  proof (rule py_float_of_underflow)
    show "(1::nat) * 2 ^ 1075 < 10 ^ 324" by simp
  qed
  finally show ?thesis .
qed

lemma examples_bytes_tiny: "bytes_value_of rule_t = Finite 0"
  using extract_tiny_bytes by (simp add: bytes_value_of_def rule_t_def dict_get_def)

lemma examples_wildcards:
  "src_any rule_a" "\<not> dst_any rule_a" "srv_any rule_a"
  "src_any rule_b" "\<not> dst_any rule_b" "srv_any rule_b"
  "src_any rule_c" "dst_any rule_c" "srv_any rule_c"
  "src_any rule_d" "dst_any rule_d" "srv_any rule_d"
  by code_simp+

lemma examples_log_setting:
  "log_setting_of rule_a = ''disable''" "log_setting_of rule_b = ''utm''"
  "log_setting_of rule_c = []" "log_setting_of rule_d = []"
  "log_setting_of rule_w = ''disable''"
  by code_simp+

lemma examples_signature:
  "signature_of rule_a = ''all|10.0.0.0/8|any||ACCEPT''" "signature_of rule_c = ''||||ACCEPT''"
  "signature_of rule_b = ''ALL-EXCEPT-DMZ|10.1.1.1|Call-Center||ACCEPT''"
  "signature_of rule_w = ''all|10.0.0.0/8|any||ACCEPT''"
  by code_simp+

section \<open>Unused-rule detector: what is flagged\<close>

lemma audit_unused_rules_eq:
  "audit_unused_rules ps =
     map (\<lambda>(j, p). unused_entry j p)
       (filter (\<lambda>(j, p). bytes_value_of p = Finite 0 \<and> action_upper p = ''ACCEPT'') (enumerate 0 ps))"
  by (simp add: audit_unused_rules_def unused_loop_eq)

lemma u_id_unused_entry: "u_id (unused_entry j p) = Suc j"
  by (simp add: unused_entry_def)

text \<open>
  Claim C5. The unused-rule detector flags the record at position \<open>i + 1\<close> if and only if
  its action, upper-cased, is \<^verbatim>\<open>ACCEPT\<close> (that is, the action spells \<^verbatim>\<open>accept\<close> in any
  mix of cases) and its normalized bytes value, a float, is 0. A record whose bytes value is
  not 0 is never flagged, whatever its action, and no position is flagged twice.
\<close>

theorem unused_flagged_iff:
  assumes "i < length policies"
  shows "((unused_entry i (policies ! i) \<in> set (audit_unused_rules policies)) \<longleftrightarrow>
            (action_upper (policies ! i) = ''ACCEPT'' \<and> bytes_value_of (policies ! i) = Finite 0))
       \<and> ((i + 1 \<in> set (map u_id (audit_unused_rules policies))) \<longleftrightarrow>
            (action_upper (policies ! i) = ''ACCEPT'' \<and> bytes_value_of (policies ! i) = Finite 0))
       \<and> (bytes_value_of (policies ! i) \<noteq> Finite 0 \<longrightarrow> i + 1 \<notin> set (map u_id (audit_unused_rules policies)))
       \<and> ((action_upper (policies ! i) = ''ACCEPT'') \<longleftrightarrow>
            (lower (safe_string (dict_get (policies ! i) ''Action'' (JStr []))) = ''accept''))
       \<and> ((action_upper (policies ! i) = ''ACCEPT'') \<longleftrightarrow>
            spelt (safe_string (dict_get (policies ! i) ''Action'' (JStr []))) ''accept'')
       \<and> distinct (map u_id (audit_unused_rules policies))"
proof -
  let ?P = "\<lambda>p. bytes_value_of p = Finite 0 \<and> action_upper p = ''ACCEPT''"
  have S: "set (audit_unused_rules policies) =
      {unused_entry k (policies ! k) | k. k < length policies \<and> ?P (policies ! k)}"
    unfolding audit_unused_rules_eq by (rule set_map_filter_enumerate)
  have ids: "set (map u_id (audit_unused_rules policies)) =
      {Suc k | k. k < length policies \<and> ?P (policies ! k)}"
    unfolding audit_unused_rules_eq
    by (rule set_ids_filter_enumerate) (rule u_id_unused_entry)
  have A: "(i + 1 \<in> set (map u_id (audit_unused_rules policies))) \<longleftrightarrow> ?P (policies ! i)"
    unfolding ids using assms by auto
  have B: "(unused_entry i (policies ! i) \<in> set (audit_unused_rules policies)) \<longleftrightarrow> ?P (policies ! i)"
  proof
    assume "unused_entry i (policies ! i) \<in> set (audit_unused_rules policies)"
    then obtain k where k: "unused_entry i (policies ! i) = unused_entry k (policies ! k)"
      "k < length policies" "?P (policies ! k)"
      unfolding S by blast
    from k(1) have "u_id (unused_entry i (policies ! i)) = u_id (unused_entry k (policies ! k))"
      by simp
    then have "k = i" by (simp add: u_id_unused_entry)
    with k show "?P (policies ! i)" by simp
  next
    assume "?P (policies ! i)"
    with assms show "unused_entry i (policies ! i) \<in> set (audit_unused_rules policies)"
      unfolding S by blast
  qed
  have C: "(action_upper (policies ! i) = ''ACCEPT'') \<longleftrightarrow>
            (lower (safe_string (dict_get (policies ! i) ''Action'' (JStr []))) = ''accept'')"
    unfolding action_upper_def by (rule upper_ACCEPT_iff)
  have D: "distinct (map u_id (audit_unused_rules policies))"
    unfolding audit_unused_rules_eq
    by (rule distinct_ids_filter_enumerate) (rule u_id_unused_entry)
  have C': "(action_upper (policies ! i) = ''ACCEPT'') \<longleftrightarrow>
            spelt (safe_string (dict_get (policies ! i) ''Action'' (JStr []))) ''accept''"
    unfolding C by (rule lower_words)
  from A B C C' D show ?thesis by blast
qed

text \<open>
  Of the rules \<open>rule_a\<close> (no traffic), \<open>rule_b\<close> (\<^verbatim>\<open>15420 MB\<close>), \<open>rule_d\<close> (a \<^verbatim>\<open>DENY\<close>
  rule) and \<open>rule_t\<close> (a counter below the smallest positive double, which is the float
  0.0), the first and the last are flagged.
\<close>

theorem unused_flagged_iff_witness:
  "bytes_value_of rule_b = Finite 15420
   \<and> 1 + 1 \<notin> set (map u_id (audit_unused_rules [rule_a, rule_b, rule_d, rule_t]))
   \<and> unused_entry 0 rule_a \<in> set (audit_unused_rules [rule_a, rule_b, rule_d, rule_t])
   \<and> 2 + 1 \<notin> set (map u_id (audit_unused_rules [rule_a, rule_b, rule_d, rule_t]))
   \<and> bytes_value_of rule_t = Finite 0
   \<and> unused_entry 3 rule_t \<in> set (audit_unused_rules [rule_a, rule_b, rule_d, rule_t])
   \<and> 3 + 1 \<in> set (map u_id (audit_unused_rules [rule_a, rule_b, rule_d, rule_t]))"
  using unused_flagged_iff [of 0 "[rule_a, rule_b, rule_d, rule_t]"]
    unused_flagged_iff [of 1 "[rule_a, rule_b, rule_d, rule_t]"]
    unused_flagged_iff [of 2 "[rule_a, rule_b, rule_d, rule_t]"]
    unused_flagged_iff [of 3 "[rule_a, rule_b, rule_d, rule_t]"]
  by (simp add: examples_action_upper examples_bytes_zero examples_bytes_used examples_bytes_tiny)

section \<open>Permissiveness classifier: the two sequences\<close>

lemma audit_permissive_rules_eq:
  "audit_permissive_rules ps =
     (map (\<lambda>(j, p). (rule_info_of j p)\<lparr>r_risk_level := Some ''CRITICAL''\<rparr>)
        (filter (\<lambda>(j, p). action_upper p = ''ACCEPT'' \<and> src_any p \<and> dst_any p \<and> srv_any p)
           (enumerate 0 ps)),
      map (\<lambda>(j, p). (rule_info_of j p)\<lparr>r_risk_level := Some ''HIGH''\<rparr>)
        (filter (\<lambda>(j, p). action_upper p = ''ACCEPT'' \<and> (src_any p \<or> dst_any p \<or> srv_any p)
                   \<and> \<not> (src_any p \<and> dst_any p \<and> srv_any p))
           (enumerate 0 ps)))"
  by (simp add: audit_permissive_rules_def permissive_loop_eq)

lemma r_id_rule_info_of: "r_id ((rule_info_of j p)\<lparr>r_risk_level := l\<rparr>) = Suc j"
  by (simp add: rule_info_of_def)

lemma r_risk_level_rule_info_of: "r_risk_level ((rule_info_of j p)\<lparr>r_risk_level := l\<rparr>) = l"
  by simp

text \<open>
  Claim C2. A record whose action, upper-cased, is \<^verbatim>\<open>ACCEPT\<close> and which has a wildcard
  boolean set is in exactly one of the two sequences: with all three booleans it is in
  the all-wildcard sequence and not in the other, otherwise in the single-wildcard
  sequence and not in the other. A record with another action or with no boolean set is in
  neither. Every finding of the first sequence has risk level \<^verbatim>\<open>CRITICAL\<close>, every finding
  of the second \<^verbatim>\<open>HIGH\<close>; the sequences share no position and no finding, and no position
  occurs twice in either.
\<close>

theorem permissive_classification:
  assumes "i < length policies"
  shows "(action_upper (policies ! i) = ''ACCEPT''
            \<and> src_any (policies ! i) \<and> dst_any (policies ! i) \<and> srv_any (policies ! i) \<longrightarrow>
          (rule_info_of i (policies ! i))\<lparr>r_risk_level := Some ''CRITICAL''\<rparr>
            \<in> set (fst (audit_permissive_rules policies))
          \<and> i + 1 \<notin> set (map r_id (snd (audit_permissive_rules policies))))
       \<and> (action_upper (policies ! i) = ''ACCEPT''
            \<and> (src_any (policies ! i) \<or> dst_any (policies ! i) \<or> srv_any (policies ! i))
            \<and> \<not> (src_any (policies ! i) \<and> dst_any (policies ! i) \<and> srv_any (policies ! i)) \<longrightarrow>
          (rule_info_of i (policies ! i))\<lparr>r_risk_level := Some ''HIGH''\<rparr>
            \<in> set (snd (audit_permissive_rules policies))
          \<and> i + 1 \<notin> set (map r_id (fst (audit_permissive_rules policies))))
       \<and> (action_upper (policies ! i) \<noteq> ''ACCEPT''
            \<or> \<not> (src_any (policies ! i) \<or> dst_any (policies ! i) \<or> srv_any (policies ! i)) \<longrightarrow>
          i + 1 \<notin> set (map r_id (fst (audit_permissive_rules policies)))
          \<and> i + 1 \<notin> set (map r_id (snd (audit_permissive_rules policies))))
       \<and> set (map r_id (fst (audit_permissive_rules policies)))
            \<inter> set (map r_id (snd (audit_permissive_rules policies))) = {}
       \<and> set (fst (audit_permissive_rules policies)) \<inter> set (snd (audit_permissive_rules policies)) = {}
       \<and> distinct (map r_id (fst (audit_permissive_rules policies)))
       \<and> distinct (map r_id (snd (audit_permissive_rules policies)))
       \<and> (\<forall>f \<in> set (fst (audit_permissive_rules policies)). r_risk_level f = Some ''CRITICAL'')
       \<and> (\<forall>f \<in> set (snd (audit_permissive_rules policies)). r_risk_level f = Some ''HIGH'')
       \<and> ((action_upper (policies ! i) = ''ACCEPT'') \<longleftrightarrow>
            (lower (safe_string (dict_get (policies ! i) ''Action'' (JStr []))) = ''accept''))"
proof -
  let ?C = "\<lambda>p. action_upper p = ''ACCEPT'' \<and> src_any p \<and> dst_any p \<and> srv_any p"
  let ?H = "\<lambda>p. action_upper p = ''ACCEPT'' \<and> (src_any p \<or> dst_any p \<or> srv_any p)
                   \<and> \<not> (src_any p \<and> dst_any p \<and> srv_any p)"
  let ?aa = "fst (audit_permissive_rules policies)"
  let ?sa = "snd (audit_permissive_rules policies)"
  have Saa: "set ?aa = {(rule_info_of k (policies ! k))\<lparr>r_risk_level := Some ''CRITICAL''\<rparr> | k.
                 k < length policies \<and> ?C (policies ! k)}"
    unfolding audit_permissive_rules_eq fst_conv by (rule set_map_filter_enumerate)
  have Ssa: "set ?sa = {(rule_info_of k (policies ! k))\<lparr>r_risk_level := Some ''HIGH''\<rparr> | k.
                 k < length policies \<and> ?H (policies ! k)}"
    unfolding audit_permissive_rules_eq snd_conv by (rule set_map_filter_enumerate)
  have Iaa: "set (map r_id ?aa) = {Suc k | k. k < length policies \<and> ?C (policies ! k)}"
    unfolding audit_permissive_rules_eq fst_conv
    by (rule set_ids_filter_enumerate) (rule r_id_rule_info_of)
  have Isa: "set (map r_id ?sa) = {Suc k | k. k < length policies \<and> ?H (policies ! k)}"
    unfolding audit_permissive_rules_eq snd_conv
    by (rule set_ids_filter_enumerate) (rule r_id_rule_info_of)
  have Daa: "distinct (map r_id ?aa)"
    unfolding audit_permissive_rules_eq fst_conv
    by (rule distinct_ids_filter_enumerate) (rule r_id_rule_info_of)
  have Dsa: "distinct (map r_id ?sa)"
    unfolding audit_permissive_rules_eq snd_conv
    by (rule distinct_ids_filter_enumerate) (rule r_id_rule_info_of)
  have Raa: "\<forall>f \<in> set ?aa. r_risk_level f = Some ''CRITICAL''"
    unfolding Saa by auto
  have Rsa: "\<forall>f \<in> set ?sa. r_risk_level f = Some ''HIGH''"
    unfolding Ssa by auto
  have disj_ids: "set (map r_id ?aa) \<inter> set (map r_id ?sa) = {}"
    unfolding Iaa Isa by auto
  have disj: "set ?aa \<inter> set ?sa = {}"
  proof -
    have "f \<notin> set ?sa" if "f \<in> set ?aa" for f
    proof
      assume "f \<in> set ?sa"
      with Rsa have "r_risk_level f = Some ''HIGH''" by blast
      moreover from that Raa have "r_risk_level f = Some ''CRITICAL''" by blast
      ultimately show False by simp
    qed
    then show ?thesis by blast
  qed
  have m_aa: "i + 1 \<in> set (map r_id ?aa) \<longleftrightarrow> ?C (policies ! i)"
    unfolding Iaa using assms by auto
  have m_sa: "i + 1 \<in> set (map r_id ?sa) \<longleftrightarrow> ?H (policies ! i)"
    unfolding Isa using assms by auto
  have in_aa: "?C (policies ! i) \<Longrightarrow>
      (rule_info_of i (policies ! i))\<lparr>r_risk_level := Some ''CRITICAL''\<rparr> \<in> set ?aa"
    unfolding Saa using assms by blast
  have in_sa: "?H (policies ! i) \<Longrightarrow>
      (rule_info_of i (policies ! i))\<lparr>r_risk_level := Some ''HIGH''\<rparr> \<in> set ?sa"
    unfolding Ssa using assms by blast
  have ci: "(action_upper (policies ! i) = ''ACCEPT'') \<longleftrightarrow>
            (lower (safe_string (dict_get (policies ! i) ''Action'' (JStr []))) = ''accept'')"
    unfolding action_upper_def by (rule upper_ACCEPT_iff)
  show ?thesis
    using m_aa m_sa in_aa in_sa disj_ids disj Daa Dsa Raa Rsa ci by blast
qed


theorem permissive_classification_witness:
  "(rule_info_of 2 rule_c)\<lparr>r_risk_level := Some ''CRITICAL''\<rparr>
       \<in> set (fst (audit_permissive_rules [rule_a, rule_b, rule_c, rule_d]))
   \<and> 2 + 1 \<notin> set (map r_id (snd (audit_permissive_rules [rule_a, rule_b, rule_c, rule_d])))
   \<and> (rule_info_of 0 rule_a)\<lparr>r_risk_level := Some ''HIGH''\<rparr>
       \<in> set (snd (audit_permissive_rules [rule_a, rule_b, rule_c, rule_d]))
   \<and> 0 + 1 \<notin> set (map r_id (fst (audit_permissive_rules [rule_a, rule_b, rule_c, rule_d])))
   \<and> 3 + 1 \<notin> set (map r_id (fst (audit_permissive_rules [rule_a, rule_b, rule_c, rule_d])))
   \<and> 3 + 1 \<notin> set (map r_id (snd (audit_permissive_rules [rule_a, rule_b, rule_c, rule_d])))"
  using permissive_classification [of 0 "[rule_a, rule_b, rule_c, rule_d]"]
    permissive_classification [of 2 "[rule_a, rule_b, rule_c, rule_d]"]
    permissive_classification [of 3 "[rule_a, rule_b, rule_c, rule_d]"]
  by (simp add: examples_action_upper examples_wildcards)

section \<open>Logging auditor: a partition\<close>

lemma audit_logging_eq:
  "audit_logging ps =
     (map (\<lambda>(j, p). log_info_of j p)
        (filter (\<lambda>(j, p). log_setting_of p \<in> set [[], ''none'', ''disable'']) (enumerate 0 ps)),
      map (\<lambda>(j, p). log_info_of j p)
        (filter (\<lambda>(j, p). log_setting_of p \<notin> set [[], ''none'', ''disable'']) (enumerate 0 ps)))"
  by (simp add: audit_logging_def logging_loop_eq)

lemma length_filter_enumerate_partition:
  "length (filter (\<lambda>(j, p). P p) xs) + length (filter (\<lambda>(j, p). \<not> P p) xs) = length xs"
  by (induction xs) auto

lemma l_id_log_info_of: "l_id (log_info_of j p) = Suc j"
  by (simp add: log_info_of_def)

text \<open>
  Claim C7. Every record, whatever its action, is in exactly one of \<open>no_logging\<close> and
  \<open>with_logging\<close>. With \<open>t\<close> the normalized log setting without its leading and trailing
  white space, the record is in \<open>no_logging\<close> exactly when \<open>t\<close> is empty or spells
  \<^verbatim>\<open>none\<close> or \<^verbatim>\<open>disable\<close> in any mix of cases, which is when the trimmed, lower-cased
  setting of the code is one of the three strings; it is in \<open>with_logging\<close> otherwise. The
  positions of the two sequences are disjoint, together they are all positions \<open>1..n\<close>,
  and none occurs twice.
\<close>

theorem logging_partition:
  assumes "i < length policies"
  shows "(\<exists>t. trimmed (safe_string (dict_get (policies ! i) ''Log'' (JStr []))) t)
       \<and> (trimmed (safe_string (dict_get (policies ! i) ''Log'' (JStr []))) t \<longrightarrow>
            (t = [] \<or> spelt t ''none'' \<or> spelt t ''disable'' \<longrightarrow>
               log_info_of i (policies ! i) \<in> set (fst (audit_logging policies))
               \<and> i + 1 \<notin> set (map l_id (snd (audit_logging policies))))
            \<and> (\<not> (t = [] \<or> spelt t ''none'' \<or> spelt t ''disable'') \<longrightarrow>
               log_info_of i (policies ! i) \<in> set (snd (audit_logging policies))
               \<and> i + 1 \<notin> set (map l_id (fst (audit_logging policies))))
            \<and> ((t = [] \<or> spelt t ''none'' \<or> spelt t ''disable'') \<longleftrightarrow>
                 log_setting_of (policies ! i) \<in> {[], ''none'', ''disable''}))
       \<and> (log_setting_of (policies ! i) \<in> {[], ''none'', ''disable''} \<longrightarrow>
            log_info_of i (policies ! i) \<in> set (fst (audit_logging policies))
            \<and> i + 1 \<notin> set (map l_id (snd (audit_logging policies))))
       \<and> (log_setting_of (policies ! i) \<notin> {[], ''none'', ''disable''} \<longrightarrow>
            log_info_of i (policies ! i) \<in> set (snd (audit_logging policies))
            \<and> i + 1 \<notin> set (map l_id (fst (audit_logging policies))))
       \<and> set (map l_id (fst (audit_logging policies)))
            \<inter> set (map l_id (snd (audit_logging policies))) = {}
       \<and> set (map l_id (fst (audit_logging policies)))
            \<union> set (map l_id (snd (audit_logging policies))) = {1..length policies}
       \<and> distinct (map l_id (fst (audit_logging policies)))
       \<and> distinct (map l_id (snd (audit_logging policies)))
       \<and> length (fst (audit_logging policies)) + length (snd (audit_logging policies))
            = length policies"
proof -
  let ?N = "\<lambda>p. log_setting_of p \<in> set [[], ''none'', ''disable'']"
  let ?W = "\<lambda>p. log_setting_of p \<notin> set [[], ''none'', ''disable'']"
  let ?nl = "fst (audit_logging policies)"
  let ?wl = "snd (audit_logging policies)"
  let ?raw = "safe_string (dict_get (policies ! i) ''Log'' (JStr []))"
  have Snl: "set ?nl = {log_info_of k (policies ! k) | k. k < length policies \<and> ?N (policies ! k)}"
    unfolding audit_logging_eq fst_conv by (rule set_map_filter_enumerate)
  have Swl: "set ?wl = {log_info_of k (policies ! k) | k. k < length policies \<and> ?W (policies ! k)}"
    unfolding audit_logging_eq snd_conv by (rule set_map_filter_enumerate)
  have Inl: "set (map l_id ?nl) = {Suc k | k. k < length policies \<and> ?N (policies ! k)}"
    unfolding audit_logging_eq fst_conv
    by (rule set_ids_filter_enumerate) (rule l_id_log_info_of)
  have Iwl: "set (map l_id ?wl) = {Suc k | k. k < length policies \<and> ?W (policies ! k)}"
    unfolding audit_logging_eq snd_conv
    by (rule set_ids_filter_enumerate) (rule l_id_log_info_of)
  have Dnl: "distinct (map l_id ?nl)"
    unfolding audit_logging_eq fst_conv
    by (rule distinct_ids_filter_enumerate) (rule l_id_log_info_of)
  have Dwl: "distinct (map l_id ?wl)"
    unfolding audit_logging_eq snd_conv
    by (rule distinct_ids_filter_enumerate) (rule l_id_log_info_of)
  have disj: "set (map l_id ?nl) \<inter> set (map l_id ?wl) = {}"
    unfolding Inl Iwl by auto
  have cover: "set (map l_id ?nl) \<union> set (map l_id ?wl) = {1..length policies}"
  proof -
    have "{Suc k | k. k < length policies \<and> ?N (policies ! k)}
            \<union> {Suc k | k. k < length policies \<and> ?W (policies ! k)}
          = {Suc k | k. k < length policies}"
      by blast
    also have "\<dots> = {1..length policies}"
    proof
      show "{Suc k | k. k < length policies} \<subseteq> {1..length policies}" by auto
      show "{1..length policies} \<subseteq> {Suc k | k. k < length policies}"
      proof
        fix n assume "n \<in> {1..length policies}"
        then have "n = Suc (n - 1)" "n - 1 < length policies" by auto
        then show "n \<in> {Suc k | k. k < length policies}" by blast
      qed
    qed
    finally show ?thesis unfolding Inl Iwl .
  qed
  have len: "length ?nl + length ?wl = length policies"
    unfolding audit_logging_eq fst_conv snd_conv length_map
    using length_filter_enumerate_partition [of ?N "enumerate 0 policies"]
    by (simp only: length_enumerate)
  have in_nl: "?N (policies ! i) \<Longrightarrow> log_info_of i (policies ! i) \<in> set ?nl"
    unfolding Snl using assms by blast
  have in_wl: "?W (policies ! i) \<Longrightarrow> log_info_of i (policies ! i) \<in> set ?wl"
    unfolding Swl using assms by blast
  have m_nl: "i + 1 \<in> set (map l_id ?nl) \<longleftrightarrow> ?N (policies ! i)"
    unfolding Inl using assms by auto
  have m_wl: "i + 1 \<in> set (map l_id ?wl) \<longleftrightarrow> ?W (policies ! i)"
    unfolding Iwl using assms by auto
  have sets: "set [[], ''none'', ''disable''] = {[], ''none'', ''disable''}" by simp
  have ex: "\<exists>t. trimmed ?raw t"
    using strip_trimmed [of ?raw] by blast
  have words: "(t = [] \<or> spelt t ''none'' \<or> spelt t ''disable'') \<longleftrightarrow>
      log_setting_of (policies ! i) \<in> {[], ''none'', ''disable''}" if "trimmed ?raw t"
  proof -
    have "strip ?raw = t" using that by (rule trimmed_strip)
    then have "log_setting_of (policies ! i) = lower t" by (simp add: log_setting_of_def)
    then show ?thesis
      using lower_empty_iff [of t] lower_words(1,2) [of t] by auto
  qed
  show ?thesis
    using in_nl in_wl m_nl m_wl disj cover Dnl Dwl len ex words unfolding sets by blast
qed

lemma examples_trimmed:
  "trimmed (safe_string (dict_get rule_w ''Log'' (JStr []))) ''DisAble''"
  "trimmed (safe_string (dict_get rule_u ''Log'' (JStr []))) ''No ne''"
  "trimmed (safe_string (dict_get rule_b ''Log'' (JStr []))) ''utm''"
  "trimmed (safe_string (dict_get rule_d ''Log'' (JStr []))) []"
  by code_simp+

lemma examples_spelt:
  "spelt ''DisAble'' ''disable''" "\<not> spelt ''DisAble'' ''none''"
  "\<not> spelt ''No ne'' ''none''" "\<not> spelt ''No ne'' ''disable''"
  "\<not> spelt ''utm'' ''none''" "\<not> spelt ''utm'' ''disable''"
  by code_simp+

text \<open>
  Of the rules \<open>rule_w\<close> (log setting \<^verbatim>\<open>DisAble\<close> between white space), \<open>rule_u\<close> (a
  \<^verbatim>\<open>DENY\<close> rule with \<^verbatim>\<open>No ne\<close>), \<open>rule_b\<close> (\<^verbatim>\<open>utm\<close>) and \<open>rule_d\<close> (a \<^verbatim>\<open>DENY\<close> rule with
  no log setting), the first and the last are in \<open>no_logging\<close>, the others in
  \<open>with_logging\<close>.
\<close>

theorem logging_partition_witness:
  "log_info_of 0 rule_w \<in> set (fst (audit_logging [rule_w, rule_u, rule_b, rule_d]))
   \<and> 0 + 1 \<notin> set (map l_id (snd (audit_logging [rule_w, rule_u, rule_b, rule_d])))
   \<and> log_info_of 1 rule_u \<in> set (snd (audit_logging [rule_w, rule_u, rule_b, rule_d]))
   \<and> 1 + 1 \<notin> set (map l_id (fst (audit_logging [rule_w, rule_u, rule_b, rule_d])))
   \<and> log_info_of 2 rule_b \<in> set (snd (audit_logging [rule_w, rule_u, rule_b, rule_d]))
   \<and> 2 + 1 \<notin> set (map l_id (fst (audit_logging [rule_w, rule_u, rule_b, rule_d])))
   \<and> log_info_of 3 rule_d \<in> set (fst (audit_logging [rule_w, rule_u, rule_b, rule_d]))
   \<and> 3 + 1 \<notin> set (map l_id (snd (audit_logging [rule_w, rule_u, rule_b, rule_d])))
   \<and> log_setting_of rule_w = ''disable''"
proof -
  let ?ps = "[rule_w, rule_u, rule_b, rule_d]"
  have 0: "log_info_of 0 rule_w \<in> set (fst (audit_logging ?ps))
      \<and> 0 + 1 \<notin> set (map l_id (snd (audit_logging ?ps)))"
    using logging_partition [of 0 ?ps "''DisAble''"]
    by (simp add: examples_trimmed examples_spelt)
  have 1: "log_info_of 1 rule_u \<in> set (snd (audit_logging ?ps))
      \<and> 1 + 1 \<notin> set (map l_id (fst (audit_logging ?ps)))"
    using logging_partition [of 1 ?ps "''No ne''"]
    by (simp add: examples_trimmed examples_spelt)
  have 2: "log_info_of 2 rule_b \<in> set (snd (audit_logging ?ps))
      \<and> 2 + 1 \<notin> set (map l_id (fst (audit_logging ?ps)))"
    using logging_partition [of 2 ?ps "''utm''"]
    by (simp add: examples_trimmed examples_spelt)
  have 3: "log_info_of 3 rule_d \<in> set (fst (audit_logging ?ps))
      \<and> 3 + 1 \<notin> set (map l_id (snd (audit_logging ?ps)))"
    using logging_partition [of 3 ?ps "[]"]
    by (simp add: examples_trimmed)
  from 0 1 2 3 examples_log_setting(5) show ?thesis by blast
qed

section \<open>The wildcard test\<close>

lemma contains_iff_sublist: "contains sub s \<longleftrightarrow> sublist sub s"
proof (induction s)
  case Nil
  show ?case by simp
next
  case (Cons c cs)
  show ?case
  proof (cases sub)
    case Nil
    then show ?thesis by simp
  next
    case (Cons x xs)
    with Cons.IH show ?thesis by (simp add: sublist_Cons_right)
  qed
qed

lemma contains_self: "contains ''all'' ''all''" "contains ''any'' ''any''"
  by simp_all

lemma is_wildcard_iff:
  "(s \<in> set [''all'', ''any'', []] \<or> contains ''any'' s \<or> contains ''all'' s)
     \<longleftrightarrow> (s = [] \<or> sublist ''all'' s \<or> sublist ''any'' s)"
  using contains_self by (auto simp: contains_iff_sublist)

text \<open>
  Claim C9. The wildcard test is containment without regard to case, not exact match: a
  wildcard boolean is true exactly when the lower-cased normalized field is empty or
  contains \<^verbatim>\<open>all\<close> or \<^verbatim>\<open>any\<close> as a substring. So every field whose lower-cased
  normalized form is \<open>pre @ ''all'' @ post\<close> or \<open>pre @ ''any'' @ post\<close> sets its boolean.
\<close>

theorem wildcard_by_containment:
  "(src_any p \<longleftrightarrow>
      (lower (safe_string (dict_get p ''Source'' (JStr []))) = []
       \<or> sublist ''all'' (lower (safe_string (dict_get p ''Source'' (JStr []))))
       \<or> sublist ''any'' (lower (safe_string (dict_get p ''Source'' (JStr []))))))
   \<and> (dst_any p \<longleftrightarrow>
      (lower (safe_string (dict_get p ''Destination'' (JStr []))) = []
       \<or> sublist ''all'' (lower (safe_string (dict_get p ''Destination'' (JStr []))))
       \<or> sublist ''any'' (lower (safe_string (dict_get p ''Destination'' (JStr []))))))
   \<and> (srv_any p \<longleftrightarrow>
      (lower (safe_string (dict_get p ''Service'' (JStr []))) = []
       \<or> sublist ''all'' (lower (safe_string (dict_get p ''Service'' (JStr []))))
       \<or> sublist ''any'' (lower (safe_string (dict_get p ''Service'' (JStr []))))))
   \<and> (lower (safe_string (dict_get p ''Source'' (JStr []))) = pre @ ''all'' @ post \<longrightarrow> src_any p)
   \<and> (lower (safe_string (dict_get p ''Source'' (JStr []))) = pre @ ''any'' @ post \<longrightarrow> src_any p)
   \<and> (lower (safe_string (dict_get p ''Destination'' (JStr []))) = pre @ ''all'' @ post \<longrightarrow> dst_any p)
   \<and> (lower (safe_string (dict_get p ''Destination'' (JStr []))) = pre @ ''any'' @ post \<longrightarrow> dst_any p)
   \<and> (lower (safe_string (dict_get p ''Service'' (JStr []))) = pre @ ''all'' @ post \<longrightarrow> srv_any p)
   \<and> (lower (safe_string (dict_get p ''Service'' (JStr []))) = pre @ ''any'' @ post \<longrightarrow> srv_any p)"
proof -
  have s: "src_any p \<longleftrightarrow>
      (lower (safe_string (dict_get p ''Source'' (JStr []))) = []
       \<or> sublist ''all'' (lower (safe_string (dict_get p ''Source'' (JStr []))))
       \<or> sublist ''any'' (lower (safe_string (dict_get p ''Source'' (JStr [])))))"
    unfolding src_any_def Let_def by (rule is_wildcard_iff)
  have d: "dst_any p \<longleftrightarrow>
      (lower (safe_string (dict_get p ''Destination'' (JStr []))) = []
       \<or> sublist ''all'' (lower (safe_string (dict_get p ''Destination'' (JStr []))))
       \<or> sublist ''any'' (lower (safe_string (dict_get p ''Destination'' (JStr [])))))"
    unfolding dst_any_def Let_def by (rule is_wildcard_iff)
  have v: "srv_any p \<longleftrightarrow>
      (lower (safe_string (dict_get p ''Service'' (JStr []))) = []
       \<or> sublist ''all'' (lower (safe_string (dict_get p ''Service'' (JStr []))))
       \<or> sublist ''any'' (lower (safe_string (dict_get p ''Service'' (JStr [])))))"
    unfolding srv_any_def Let_def using is_wildcard_iff by blast
  have sub: "\<And>w s. s = pre @ w @ post \<Longrightarrow> sublist w s"
    unfolding sublist_def by blast
  show ?thesis
    using s d v sub by blast
qed

lemma rule_b_fields:
  "lower (safe_string (dict_get rule_b ''Source'' (JStr []))) = ''all-except-dmz''"
  "lower (safe_string (dict_get rule_b ''Service'' (JStr []))) = ''call-center''"
  by code_simp+

theorem wildcard_by_containment_witness:
  "lower (safe_string (dict_get rule_b ''Source'' (JStr []))) = [] @ ''all'' @ ''-except-dmz''
   \<and> src_any rule_b
   \<and> lower (safe_string (dict_get rule_b ''Service'' (JStr []))) = ''c'' @ ''all'' @ ''-center''
   \<and> srv_any rule_b"
proof -
  have e1: "lower (safe_string (dict_get rule_b ''Source'' (JStr []))) = [] @ ''all'' @ ''-except-dmz''"
    by (simp add: rule_b_fields)
  have e2: "lower (safe_string (dict_get rule_b ''Service'' (JStr []))) = ''c'' @ ''all'' @ ''-center''"
    by (simp add: rule_b_fields)
  from e1 wildcard_by_containment [of rule_b "[]" "''-except-dmz''"] have "src_any rule_b"
    by blast
  moreover from e2 wildcard_by_containment [of rule_b "''c''" "''-center''"] have "srv_any rule_b"
    by blast
  ultimately show ?thesis
    using e1 e2 by blast
qed

section \<open>Absent fields\<close>

lemma absent_normalizes_to_empty:
  "map_of p k = None \<Longrightarrow> safe_string (dict_get p k (JStr [])) = []"
  by (simp add: dict_get_def safe_string_def)

lemma lower_Nil: "lower [] = []"
  by (simp add: lower_def)

lemma set_all_all_rules:
  "set (fst (audit_permissive_rules ps)) =
     {(rule_info_of k (ps ! k))\<lparr>r_risk_level := Some ''CRITICAL''\<rparr> | k.
        k < length ps \<and> action_upper (ps ! k) = ''ACCEPT''
        \<and> src_any (ps ! k) \<and> dst_any (ps ! k) \<and> srv_any (ps ! k)}"
  unfolding audit_permissive_rules_eq fst_conv by (rule set_map_filter_enumerate)

lemma ids_single_all_rules:
  "set (map r_id (snd (audit_permissive_rules ps))) =
     {Suc k | k. k < length ps \<and> action_upper (ps ! k) = ''ACCEPT''
        \<and> (src_any (ps ! k) \<or> dst_any (ps ! k) \<or> srv_any (ps ! k))
        \<and> \<not> (src_any (ps ! k) \<and> dst_any (ps ! k) \<and> srv_any (ps ! k))}"
  unfolding audit_permissive_rules_eq snd_conv
  by (rule set_ids_filter_enumerate) (rule r_id_rule_info_of)

text \<open>
  Claim C10. A source, destination or service field that is absent normalizes to the
  empty string and sets its wildcard boolean. So a record whose action, upper-cased, is
  \<^verbatim>\<open>ACCEPT\<close> and which has none of the three fields is a \<^verbatim>\<open>CRITICAL\<close> finding of the
  all-wildcard sequence, and is not in the single-wildcard sequence.
\<close>

theorem absent_field_is_wildcard:
  "(map_of p ''Source'' = None \<longrightarrow>
      safe_string (dict_get p ''Source'' (JStr [])) = [] \<and> src_any p)
   \<and> (map_of p ''Destination'' = None \<longrightarrow>
      safe_string (dict_get p ''Destination'' (JStr [])) = [] \<and> dst_any p)
   \<and> (map_of p ''Service'' = None \<longrightarrow>
      safe_string (dict_get p ''Service'' (JStr [])) = [] \<and> srv_any p)
   \<and> (i < length policies \<and> action_upper (policies ! i) = ''ACCEPT''
        \<and> map_of (policies ! i) ''Source'' = None
        \<and> map_of (policies ! i) ''Destination'' = None
        \<and> map_of (policies ! i) ''Service'' = None \<longrightarrow>
      (rule_info_of i (policies ! i))\<lparr>r_risk_level := Some ''CRITICAL''\<rparr>
         \<in> set (fst (audit_permissive_rules policies))
      \<and> i + 1 \<notin> set (map r_id (snd (audit_permissive_rules policies))))"
proof -
  have s: "src_any q" if "map_of q ''Source'' = None" for q
    using absent_normalizes_to_empty [OF that] by (simp add: src_any_def lower_Nil)
  have d: "dst_any q" if "map_of q ''Destination'' = None" for q
    using absent_normalizes_to_empty [OF that] by (simp add: dst_any_def lower_Nil)
  have v: "srv_any q" if "map_of q ''Service'' = None" for q
    using absent_normalizes_to_empty [OF that] by (simp add: srv_any_def lower_Nil)
  have crit: "(rule_info_of i (policies ! i))\<lparr>r_risk_level := Some ''CRITICAL''\<rparr>
         \<in> set (fst (audit_permissive_rules policies))
      \<and> i + 1 \<notin> set (map r_id (snd (audit_permissive_rules policies)))"
    if "i < length policies" "action_upper (policies ! i) = ''ACCEPT''"
      "map_of (policies ! i) ''Source'' = None"
      "map_of (policies ! i) ''Destination'' = None"
      "map_of (policies ! i) ''Service'' = None"
  proof -
    have w: "src_any (policies ! i)" "dst_any (policies ! i)" "srv_any (policies ! i)"
      using that s d v by blast+
    have "(rule_info_of i (policies ! i))\<lparr>r_risk_level := Some ''CRITICAL''\<rparr>
         \<in> set (fst (audit_permissive_rules policies))"
      unfolding set_all_all_rules using that(1,2) w by blast
    moreover have "i + 1 \<notin> set (map r_id (snd (audit_permissive_rules policies)))"
      unfolding ids_single_all_rules using w by auto
    ultimately show ?thesis by blast
  qed
  show ?thesis
    using s d v crit absent_normalizes_to_empty by blast
qed

lemma rule_c_absent:
  "map_of rule_c ''Source'' = None" "map_of rule_c ''Destination'' = None"
  "map_of rule_c ''Service'' = None"
  by (simp_all add: rule_c_def)

theorem absent_field_is_wildcard_witness:
  "map_of rule_c ''Source'' = None \<and> src_any rule_c
   \<and> map_of rule_c ''Destination'' = None \<and> dst_any rule_c
   \<and> map_of rule_c ''Service'' = None \<and> srv_any rule_c
   \<and> (rule_info_of 1 ([rule_a, rule_c] ! 1))\<lparr>r_risk_level := Some ''CRITICAL''\<rparr>
         \<in> set (fst (audit_permissive_rules [rule_a, rule_c]))"
proof -
  have h: "1 < length [rule_a, rule_c]" "action_upper ([rule_a, rule_c] ! 1) = ''ACCEPT''"
    "map_of ([rule_a, rule_c] ! 1) ''Source'' = None"
    "map_of ([rule_a, rule_c] ! 1) ''Destination'' = None"
    "map_of ([rule_a, rule_c] ! 1) ''Service'' = None"
    by (simp_all add: rule_c_absent examples_action_upper)
  from h rule_c_absent absent_field_is_wildcard [of rule_c 1 "[rule_a, rule_c]"]
  show ?thesis by blast
qed

section \<open>The numeric extractor\<close>

lemma zero_B_leading:
  assumes "pre @ ds @ rest = ''0 B''" "\<forall>c \<in> set pre. \<not> is_digit c" "ds \<noteq> []"
    "\<forall>c \<in> set ds. is_digit c"
  shows "digits_value ds = 0"
proof -
  have d0: "is_digit (CHR ''0'')" and dsp: "\<not> is_digit (CHR '' '')"
    by (simp_all add: is_digit_def)
  have "pre = []"
  proof (cases pre)
    case Nil
    then show ?thesis .
  next
    case (Cons c pre')
    with assms(1) have "c = CHR ''0''" by simp
    with assms(2) Cons d0 show ?thesis by simp
  qed
  with assms(1) have e: "ds @ rest = ''0 B''" by simp
  obtain d ds' where ds: "ds = d # ds'" using assms(3) by (cases ds) auto
  with e have d: "d = CHR ''0''" and e': "ds' @ rest = '' B''" by simp_all
  have "ds' = []"
  proof (cases ds')
    case Nil
    then show ?thesis .
  next
    case (Cons c r)
    with e' have "c = CHR '' ''" by simp
    with assms(4) ds Cons dsp show ?thesis by simp
  qed
  with ds d show ?thesis by (simp add: digits_value_def)
qed

text \<open>
  Claim C3, as amended. The numeric extractor returns the first decimal number that occurs
  anywhere in the string, as a float: the digits \<open>ds\<close> after a prefix \<open>pre\<close> without
  digits, with the fraction \<open>.fs\<close> when a dot and digits follow. For a string that starts
  with a number this is the leading number (\<^verbatim>\<open>"15420 MB"\<close> gives 15420.0). The float is the
  number itself when that is an integer below \<open>2^53\<close>, infinity from \<open>2^1024\<close> on, and 0.0
  below \<open>2^-1075\<close>. The extractor returns 0 when the value is absent or literally
  \<^verbatim>\<open>"0 B"\<close>, and for every string that contains no digit.
\<close>

theorem extract_bytes_value_first_number:
  "extract_bytes_value JNull = Finite 0
   \<and> extract_bytes_value (JStr ''0 B'') = Finite 0
   \<and> (map_of p ''Bytes'' = None \<longrightarrow> bytes_value_of p = Finite 0)
   \<and> ((\<forall>c \<in> set s. \<not> is_digit c) \<longrightarrow> extract_bytes_value (JStr s) = Finite 0)
   \<and> ((\<forall>c \<in> set pre. \<not> is_digit c) \<and> ds \<noteq> [] \<and> (\<forall>c \<in> set ds. is_digit c)
        \<and> (rest = [] \<or> \<not> is_digit (hd rest))
        \<and> \<not> (\<exists>r. rest = CHR ''.'' # r \<and> r \<noteq> [] \<and> is_digit (hd r)) \<longrightarrow>
      extract_bytes_value (JStr (pre @ ds @ rest)) = py_float_of (digits_value ds) 1
      \<and> (digits_value ds < 2 ^ 53 \<longrightarrow>
           extract_bytes_value (JStr (pre @ ds @ rest)) = Finite (of_nat (digits_value ds)))
      \<and> (2 ^ 1024 \<le> digits_value ds \<longrightarrow>
           extract_bytes_value (JStr (pre @ ds @ rest)) = Infinity))
   \<and> ((\<forall>c \<in> set pre. \<not> is_digit c) \<and> ds \<noteq> [] \<and> (\<forall>c \<in> set ds. is_digit c)
        \<and> fs \<noteq> [] \<and> (\<forall>c \<in> set fs. is_digit c)
        \<and> (rest = [] \<or> \<not> is_digit (hd rest)) \<longrightarrow>
      extract_bytes_value (JStr (pre @ ds @ CHR ''.'' # fs @ rest))
        = py_float_of (digits_value (ds @ fs)) (10 ^ length fs)
      \<and> (digits_value (ds @ fs) * 2 ^ 1075 < 10 ^ length fs \<longrightarrow>
           extract_bytes_value (JStr (pre @ ds @ CHR ''.'' # fs @ rest)) = Finite 0))"
proof -
  have a: "extract_bytes_value JNull = Finite 0" "extract_bytes_value (JStr ''0 B'') = Finite 0"
    by (simp_all add: extract_bytes_value_def)
  have b: "bytes_value_of p = Finite 0" if "map_of p ''Bytes'' = None"
    using that a(2) by (simp add: bytes_value_of_def dict_get_def)
  have c: "extract_bytes_value (JStr s) = Finite 0" if "\<forall>c \<in> set s. \<not> is_digit c"
    using re_search_number_none [OF that]
    by (simp add: extract_bytes_value_def py_str_def)
  have d: "extract_bytes_value (JStr (pre @ ds @ rest)) = py_float_of (digits_value ds) 1"
    if h: "\<forall>c \<in> set pre. \<not> is_digit c" "ds \<noteq> []" "\<forall>c \<in> set ds. is_digit c"
      "rest = [] \<or> \<not> is_digit (hd rest)"
      "\<not> (\<exists>r. rest = CHR ''.'' # r \<and> r \<noteq> [] \<and> is_digit (hd r))"
  proof (cases "pre @ ds @ rest = ''0 B''")
    case True
    have "digits_value ds = 0" using True h(1,2,3) by (rule zero_B_leading)
    then have "py_float_of (digits_value ds) 1 = Finite 0" by (simp add: py_float_of_def)
    with True show ?thesis
      by (simp add: extract_bytes_value_def)
  next
    case False
    have "re_search_number (pre @ ds @ rest) = Some ds"
      using h by (rule re_search_number_int)
    with False h(2) py_float_int [OF h(3)] show ?thesis
      by (simp add: extract_bytes_value_def py_str_def)
  qed
  have d1: "digits_value ds < 2 ^ 53 \<Longrightarrow> py_float_of (digits_value ds) 1 = Finite (of_nat (digits_value ds))"
    by (rule py_float_of_small)
  have d2: "2 ^ 1024 \<le> digits_value ds \<Longrightarrow> py_float_of (digits_value ds) 1 = Infinity"
    by (rule py_float_of_overflow) simp_all
  have e: "extract_bytes_value (JStr (pre @ ds @ CHR ''.'' # fs @ rest))
        = py_float_of (digits_value (ds @ fs)) (10 ^ length fs)"
    if h: "\<forall>c \<in> set pre. \<not> is_digit c" "ds \<noteq> []" "\<forall>c \<in> set ds. is_digit c"
      "fs \<noteq> []" "\<forall>c \<in> set fs. is_digit c" "rest = [] \<or> \<not> is_digit (hd rest)"
  proof -
    have "CHR ''.'' \<in> set (pre @ ds @ CHR ''.'' # fs @ rest)" by simp
    moreover have "CHR ''.'' \<notin> set ''0 B''" by simp
    ultimately have ne: "pre @ ds @ CHR ''.'' # fs @ rest \<noteq> ''0 B''" by metis
    have "re_search_number (pre @ ds @ CHR ''.'' # fs @ rest) = Some (ds @ CHR ''.'' # fs)"
      using h by (rule re_search_number_frac)
    with ne py_float_frac [OF h(3), of fs] show ?thesis
      by (simp add: extract_bytes_value_def py_str_def digits_value_append)
  qed
  have e1: "digits_value (ds @ fs) * 2 ^ 1075 < 10 ^ length fs \<Longrightarrow>
      py_float_of (digits_value (ds @ fs)) (10 ^ length fs) = Finite 0"
    by (rule py_float_of_underflow)
  from a b c d d1 d2 e e1 show ?thesis by metis
qed

lemma digits_examples:
  "\<forall>c \<in> set ''15420''. is_digit c" "digits_value ''15420'' = 15420"
  "\<forall>c \<in> set ''9007199254740993''. is_digit c"
  "digits_value ''9007199254740993'' = 9007199254740993"
  "\<forall>c \<in> set ''1''. is_digit c" "\<forall>c \<in> set ''5''. is_digit c"
  "digits_value ''15'' = 15" "\<forall>c \<in> set ''0''. is_digit c"
  by (simp_all add: is_digit_def digits_value_def)

lemma digits_examples_long:
  "\<forall>c \<in> set (''1'' @ replicate 400 (CHR ''0'')). is_digit c"
  "digits_value (''1'' @ replicate 400 (CHR ''0'')) = 10 ^ 400"
  "\<forall>c \<in> set (replicate 323 (CHR ''0'') @ ''1''). is_digit c"
  "digits_value (''0'' @ replicate 323 (CHR ''0'') @ ''1'') = 1"
proof -
  have v: "digits_value ''0'' = 0" "digits_value ''1'' = 1" by (simp_all add: digits_value_def)
  show "\<forall>c \<in> set (''1'' @ replicate 400 (CHR ''0'')). is_digit c"
    "\<forall>c \<in> set (replicate 323 (CHR ''0'') @ ''1''). is_digit c"
    by (simp_all add: is_digit_def)
  show "digits_value (''1'' @ replicate 400 (CHR ''0'')) = 10 ^ 400"
    unfolding digits_value_append digits_value_zeros v by simp
  show "digits_value (''0'' @ replicate 323 (CHR ''0'') @ ''1'') = 1"
    unfolding digits_value_append digits_value_zeros v by simp
qed

lemma py_float_of_examples:
  "py_float_of 9007199254740993 (Suc 0) = Finite 9007199254740992"
  "py_float_of 15 10 = Finite (3 / 2)"
  by (simp_all add: py_float_of_def nearest_double_def scale.simps round_half_even_def)

lemma repr_next_line: "py_str (JList [JStr [CHR 0x85]]) = [CHR 0x5B, CHR 0x27, CHR 0x5C] @ ''x85'' @ [CHR 0x27, CHR 0x5D]"
  by code_simp

text \<open>
  The leading number of \<^verbatim>\<open>15420 MB\<close>, the first number of \<^verbatim>\<open>MB 15420\<close>, no number in
  \<^verbatim>\<open>n/a\<close>, an absent counter; \<open>2^53 + 1\<close>, which is rounded to \<open>2^53\<close>; \<open>10^400\<close>, which is
  infinity; \<^verbatim>\<open>1.5 GB\<close>; and \<open>10^-324\<close>, which is 0.0.
\<close>

theorem extract_bytes_value_first_number_witness:
  "extract_bytes_value (JStr ''15420 MB'') = Finite 15420
   \<and> extract_bytes_value (JStr ''MB 15420'') = Finite 15420
   \<and> extract_bytes_value (JStr ''n/a'') = Finite 0
   \<and> bytes_value_of rule_c = Finite 0
   \<and> extract_bytes_value (JStr ''9007199254740993 B'') = Finite 9007199254740992
   \<and> extract_bytes_value (JStr (''1'' @ replicate 400 (CHR ''0'') @ '' B'')) = Infinity
   \<and> extract_bytes_value (JStr ''1.5 GB'') = Finite (3 / 2)
   \<and> extract_bytes_value (JStr tiny_bytes) = Finite 0"
proof -
  have nd: "\<forall>c \<in> set ''MB ''. \<not> is_digit c" "\<forall>c \<in> set ''n/a''. \<not> is_digit c"
    "\<forall>c \<in> set []. \<not> is_digit c" "\<not> is_digit (hd '' MB'')" "\<not> is_digit (hd '' B'')"
    "\<not> is_digit (hd '' GB'')"
    by (simp_all add: is_digit_def)
  have ab: "map_of rule_c ''Bytes'' = None" by (simp add: rule_c_def)
  have small: "digits_value ''15420'' < 2 ^ 53" by (simp add: digits_examples)
  have large: "(2::nat) ^ 1024 \<le> 10 ^ 400" by simp
  have tiny: "(1::nat) * 2 ^ 1075 < 10 ^ length (replicate 323 (CHR ''0'') @ ''1'')" by simp
  have t: "tiny_bytes = [] @ ''0'' @ CHR ''.'' # (replicate 323 (CHR ''0'') @ ''1'') @ '' B''"
    by (simp add: tiny_bytes_def)
  have 1: "extract_bytes_value (JStr ([] @ ''15420'' @ '' MB'')) = Finite (of_nat (digits_value ''15420''))"
    using extract_bytes_value_first_number [of rule_c "''n/a''" "[]" "''15420''" "'' MB''" "''1''"]
      nd digits_examples(1) small by blast
  have 2: "extract_bytes_value (JStr (''MB '' @ ''15420'' @ [])) = Finite (of_nat (digits_value ''15420''))"
    using extract_bytes_value_first_number [of rule_c "''n/a''" "''MB ''" "''15420''" "[]" "''1''"]
      nd digits_examples(1) small by blast
  have 3: "extract_bytes_value (JStr ''n/a'') = Finite 0" "bytes_value_of rule_c = Finite 0"
    using extract_bytes_value_first_number [of rule_c "''n/a''" "[]" "''15420''" "'' MB''" "''1''"]
      nd ab by blast+
  have 4: "extract_bytes_value (JStr ([] @ ''9007199254740993'' @ '' B''))
             = py_float_of (digits_value ''9007199254740993'') 1"
    using extract_bytes_value_first_number
      [of rule_c "''n/a''" "[]" "''9007199254740993''" "'' B''" "''1''"]
      nd digits_examples(3) by blast
  have 5: "extract_bytes_value (JStr ([] @ (''1'' @ replicate 400 (CHR ''0'')) @ '' B'')) = Infinity"
    using extract_bytes_value_first_number
      [of rule_c "''n/a''" "[]" "''1'' @ replicate 400 (CHR ''0'')" "'' B''" "''1''"]
      nd digits_examples_long(1) large unfolding digits_examples_long(2) by blast
  have 6: "extract_bytes_value (JStr ([] @ ''1'' @ CHR ''.'' # ''5'' @ '' GB''))
             = py_float_of (digits_value (''1'' @ ''5'')) (10 ^ length ''5'')"
    using extract_bytes_value_first_number [of rule_c "''n/a''" "[]" "''1''" "'' GB''" "''5''"]
      nd digits_examples(5,6) by blast
  have ne: "replicate 323 (CHR ''0'') @ ''1'' \<noteq> []" by simp
  have 7: "extract_bytes_value (JStr tiny_bytes) = Finite 0"
    using extract_bytes_value_first_number
      [of rule_c "''n/a''" "[]" "''0''" "'' B''" "replicate 323 (CHR ''0'') @ ''1''"]
      nd digits_examples(8) digits_examples_long(3) ne tiny
    unfolding digits_examples_long(4) t by blast
  from 1 2 3 4 5 6 7 show ?thesis
    by (simp add: digits_examples py_float_of_examples)
qed

text \<open>
  The extractor searches the whole string (\<^verbatim>\<open>re.search\<close>), so a string without a leading
  numeric token does not always give 0: \<^verbatim>\<open>"MB 15420"\<close> gives 15420.
\<close>

theorem extract_bytes_value_leading_counterexample:
  "\<not> is_digit (hd ''MB 15420'') \<and> extract_bytes_value (JStr ''MB 15420'') = Finite 15420
   \<and> extract_bytes_value (JStr ''MB 15420'') \<noteq> Finite 0"
  using py_float_of_small [of 15420]
  by (simp add: extract_bytes_value_def re_search_number_def py_float_def digits_value_def
      is_digit_def py_str_def)

text \<open>
  A value that is not a string is searched in its text: of the list with the one string
  U+0085, written \<^verbatim>\<open>['\x85']\<close>, the number is 85.
\<close>

lemma extract_bytes_value_repr: "extract_bytes_value (JList [JStr [CHR 0x85]]) = Finite 85"
proof -
  have nd: "\<forall>c \<in> set ([CHR 0x5B, CHR 0x27, CHR 0x5C] @ ''x''). \<not> is_digit c"
    "\<forall>c \<in> set ''85''. is_digit c" "\<not> is_digit (hd [CHR 0x27, CHR 0x5D])"
    by (simp_all add: is_digit_def)
  have "re_search_number (([CHR 0x5B, CHR 0x27, CHR 0x5C] @ ''x'') @ ''85'' @ [CHR 0x27, CHR 0x5D])
          = Some ''85''"
    by (rule re_search_number_int) (use nd in simp_all)
  then have "re_search_number (py_str (JList [JStr [CHR 0x85]])) = Some ''85''"
    by (simp add: repr_next_line)
  moreover have "py_float ''85'' = Finite 85"
    using py_float_int [OF nd(2)] py_float_of_small [of 85] by (simp add: digits_value_def)
  ultimately show ?thesis
    by (simp add: extract_bytes_value_def)
qed

section \<open>Recommendations\<close>

lemma append_if_nonempty:
  "(case v of Some (x # xs) \<Rightarrow> acc @ [f (length (x # xs))] | _ \<Rightarrow> acc)
     = acc @ (if 0 < count_of v then [f (count_of v)] else [])"
  by (simp add: count_of_def split: option.splits list.splits)

text \<open>
  Claim C1, as amended. The recommendation list has an entry for a category if and only
  if the count of that category is greater than zero, with that count, and the entries
  stand in the order of the source: \<^verbatim>\<open>HIGH\<close> unused rules, \<^verbatim>\<open>CRITICAL\<close> all-wildcard,
  \<^verbatim>\<open>HIGH\<close> single-wildcard, \<^verbatim>\<open>MEDIUM\<close> duplicate groups, \<^verbatim>\<open>MEDIUM\<close> rules without logging.
\<close>

theorem recommendations_order:
  "generate_recommendations res =
     (if 0 < count_of (unused_rules res) then [unused_recommendation (count_of (unused_rules res))] else [])
     @ (if 0 < count_of (all_all_rules res) then [all_all_recommendation (count_of (all_all_rules res))] else [])
     @ (if 0 < count_of (single_all_rules res)
        then [single_all_recommendation (count_of (single_all_rules res))] else [])
     @ (if 0 < count_of (duplicate_rules res)
        then [duplicate_recommendation (count_of (duplicate_rules res))] else [])
     @ (if 0 < no_logging_count res then [logging_recommendation (no_logging_count res)] else [])"
  unfolding generate_recommendations_def Let_def no_logging_count_def [symmetric]
  apply (simp only: append_if_nonempty [where f = unused_recommendation]
        append_if_nonempty [where f = all_all_recommendation]
        append_if_nonempty [where f = single_all_recommendation]
        append_if_nonempty [where f = duplicate_recommendation])
  apply simp
  done


lemma example_results_counts:
  "count_of (unused_rules example_results) = 1" "count_of (all_all_rules example_results) = 1"
  "count_of (single_all_rules example_results) = 0" "count_of (duplicate_rules example_results) = 0"
  "no_logging_count example_results = 1"
  by (simp_all add: example_results_def count_of_def no_logging_count_def)

theorem recommendations_order_witness:
  "generate_recommendations example_results
     = [unused_recommendation 1, all_all_recommendation 1, logging_recommendation 1]"
  using recommendations_order [of example_results]
  by (simp add: example_results_counts)

text \<open>
  The \<^verbatim>\<open>CRITICAL\<close> entry is not the first one when there are unused rules: for the results
  of the audits over \<open>[rule_c]\<close> the list starts with the \<^verbatim>\<open>HIGH\<close> cleanup entry.
\<close>

theorem recommendations_order_counterexample:
  "map (\<lambda>r. (rc_priority r, rc_category r)) (generate_recommendations example_results)
     = [(''HIGH'', ''Cleanup''), (''CRITICAL'', ''Security''), (''MEDIUM'', ''Monitoring'')]"
  by (simp add: generate_recommendations_def example_results_def unused_recommendation_def
      all_all_recommendation_def logging_recommendation_def)

section \<open>The assembled report\<close>

lemma audit_method_Inr_iff:
  "audit_method store a = Inr a' \<longleftrightarrow>
     (\<exists>pv ps res. a_policies a = Some pv \<and> iter_policies pv = Inr ps \<and> a_results a = Some res
        \<and> a' = a\<lparr>a_results := Some (store ps res)\<rparr>)"
  by (auto simp: audit_method_def split: option.splits sum.splits)

lemma report_of_Inr:
  assumes "a_policies a = Some pv" "iter_policies pv = Inr ps" "a_results a = Some res"
  shows "report_of e a = build_report e (length ps) (all_results ps res)"
  using assms
  by (simp add: report_of_def bind_err_def run_audit_unused_rules_def run_audit_permissive_rules_def
      run_audit_duplicate_rules_def run_audit_logging_def audit_method_def all_results_def)

lemma report_of_Inr_D:
  assumes "report_of e a = Inr rep"
  shows "\<exists>pv ps res. a_policies a = Some pv \<and> iter_policies pv = Inr ps \<and> a_results a = Some res"
proof -
  from assms obtain a1 where "run_audit_unused_rules a = Inr a1"
    by (auto simp: report_of_def bind_err_def split: sum.splits)
  then show ?thesis
    unfolding run_audit_unused_rules_def audit_method_Inr_iff by blast
qed

lemma build_report_all_results:
  "build_report e n (all_results ps res) =
     Inr \<lparr> rp_audit_info = \<lparr> ai_date = now e, ai_total_rules = n \<rparr>,
           rp_summary =
             \<lparr> total_rules_analyzed = n,
               all_all_rules_count = length (fst (audit_permissive_rules ps)),
               all_all_rules_percent = percent (length (fst (audit_permissive_rules ps))) n,
               single_all_rules_count = length (snd (audit_permissive_rules ps)),
               single_all_rules_percent = percent (length (snd (audit_permissive_rules ps))) n,
               duplicate_groups_count = length (audit_duplicate_rules ps),
               duplicate_groups_percent = percent (length (audit_duplicate_rules ps)) n,
               unused_rules_count = length (audit_unused_rules ps),
               unused_rules_percent = percent (length (audit_unused_rules ps)) n,
               rules_without_logging = length (fst (audit_logging ps)),
               rules_without_logging_percent = percent (length (fst (audit_logging ps))) n \<rparr>,
           rp_detailed_results =
             \<lparr> d_unused_rules = audit_unused_rules ps,
               d_all_all_rules = fst (audit_permissive_rules ps),
               d_single_all_rules = snd (audit_permissive_rules ps),
               d_duplicate_rules = audit_duplicate_rules ps,
               d_without_logging = fst (audit_logging ps) \<rparr>,
           rp_recommendations = generate_recommendations (all_results ps res) \<rparr>"
  by (simp add: build_report_def all_results_def)

text \<open>
  Claim C8. In a report that is produced, the total is the length of the input sequence,
  every count is the length of the list of its category, a natural number, and every
  percent field is the text of \<^verbatim>\<open>round(count / total * 100, 2)\<close> followed by \<^verbatim>\<open>%\<close>
  when the total is positive. When the total is 0 every percent field is \<^verbatim>\<open>0%\<close>: the
  quotient is not computed.
\<close>

theorem report_percent_fields:
  assumes "report_of e a = Inr rep"
  shows "\<exists>pv ps. a_policies a = Some pv \<and> iter_policies pv = Inr ps
     \<and> total_rules_analyzed (rp_summary rep) = length ps
     \<and> all_all_rules_count (rp_summary rep) = length (fst (audit_permissive_rules ps))
     \<and> single_all_rules_count (rp_summary rep) = length (snd (audit_permissive_rules ps))
     \<and> duplicate_groups_count (rp_summary rep) = length (audit_duplicate_rules ps)
     \<and> unused_rules_count (rp_summary rep) = length (audit_unused_rules ps)
     \<and> rules_without_logging (rp_summary rep) = length (fst (audit_logging ps))
     \<and> all_all_rules_percent (rp_summary rep)
          = (if length ps > 0
             then round_percent (all_all_rules_count (rp_summary rep)) (length ps) @ ''%''
             else ''0%'')
     \<and> single_all_rules_percent (rp_summary rep)
          = (if length ps > 0
             then round_percent (single_all_rules_count (rp_summary rep)) (length ps) @ ''%''
             else ''0%'')
     \<and> duplicate_groups_percent (rp_summary rep)
          = (if length ps > 0
             then round_percent (duplicate_groups_count (rp_summary rep)) (length ps) @ ''%''
             else ''0%'')
     \<and> unused_rules_percent (rp_summary rep)
          = (if length ps > 0
             then round_percent (unused_rules_count (rp_summary rep)) (length ps) @ ''%''
             else ''0%'')
     \<and> rules_without_logging_percent (rp_summary rep)
          = (if length ps > 0
             then round_percent (rules_without_logging (rp_summary rep)) (length ps) @ ''%''
             else ''0%'')"
proof -
  from report_of_Inr_D [OF assms] obtain pv ps res where
    h: "a_policies a = Some pv" "iter_policies pv = Inr ps" "a_results a = Some res"
    by blast
  from assms report_of_Inr [OF h, of e] build_report_all_results [of e "length ps" ps res]
  have rep: "rep = \<lparr> rp_audit_info = \<lparr> ai_date = now e, ai_total_rules = length ps \<rparr>,
           rp_summary =
             \<lparr> total_rules_analyzed = length ps,
               all_all_rules_count = length (fst (audit_permissive_rules ps)),
               all_all_rules_percent = percent (length (fst (audit_permissive_rules ps))) (length ps),
               single_all_rules_count = length (snd (audit_permissive_rules ps)),
               single_all_rules_percent = percent (length (snd (audit_permissive_rules ps))) (length ps),
               duplicate_groups_count = length (audit_duplicate_rules ps),
               duplicate_groups_percent = percent (length (audit_duplicate_rules ps)) (length ps),
               unused_rules_count = length (audit_unused_rules ps),
               unused_rules_percent = percent (length (audit_unused_rules ps)) (length ps),
               rules_without_logging = length (fst (audit_logging ps)),
               rules_without_logging_percent = percent (length (fst (audit_logging ps))) (length ps) \<rparr>,
           rp_detailed_results =
             \<lparr> d_unused_rules = audit_unused_rules ps,
               d_all_all_rules = fst (audit_permissive_rules ps),
               d_single_all_rules = snd (audit_permissive_rules ps),
               d_duplicate_rules = audit_duplicate_rules ps,
               d_without_logging = fst (audit_logging ps) \<rparr>,
           rp_recommendations = generate_recommendations (all_results ps res) \<rparr>"
    by simp
  have p: "\<And>n. percent n (length ps)
      = (if length ps > 0 then round_percent n (length ps) @ ''%'' else ''0%'')"
    by (simp add: percent_def)
  show ?thesis
    apply (rule exI [of _ pv], rule exI [of _ ps])
    apply (simp only: h rep p select_convs simp_thms)
    apply simp
    done
qed


text \<open>
  The float model: \<open>scale\<close> only multiplies by powers of two and ends with a quotient
  in \<open>[2^52, 2^53)\<close>, and \<open>round_half_even a b\<close> is within one half of \<open>a / b\<close>.
\<close>

lemma scale_normal:
  "0 < a \<Longrightarrow> 0 < b \<Longrightarrow> scale a b = (a', b') \<Longrightarrow>
     2 ^ 52 * b' \<le> a' \<and> a' < 2 ^ 53 * b' \<and> (\<exists>u v. a' = a * 2 ^ u \<and> b' = b * 2 ^ v)"
proof (induction a b rule: scale.induct)
  case (1 a b)
  note p = "1.prems"
  have nz: "\<not> (a = 0 \<or> b = 0)" using p by simp
  show ?case
  proof (cases "a < 2 ^ 52 * b")
    case True
    have "scale a b = scale (2 * a) b"
      using nz True by (subst scale.simps) simp
    with p(3) have s: "scale (2 * a) b = (a', b')" by simp
    from "1.IH"(1) [OF nz True _ p(2) s] p(1)
    obtain u v where "2 ^ 52 * b' \<le> a'" "a' < 2 ^ 53 * b'" "a' = 2 * a * 2 ^ u" "b' = b * 2 ^ v"
      by auto
    then have "a' = a * 2 ^ Suc u" by simp
    with \<open>2 ^ 52 * b' \<le> a'\<close> \<open>a' < 2 ^ 53 * b'\<close> \<open>b' = b * 2 ^ v\<close> show ?thesis by blast
  next
    case False
    show ?thesis
    proof (cases "2 ^ 53 * b \<le> a")
      case True
      have "scale a b = scale a (2 * b)"
        using nz False True by (subst scale.simps) simp
      with p(3) have s: "scale a (2 * b) = (a', b')" by simp
      from "1.IH"(2) [OF nz False True p(1) _ s] p(2)
      obtain u v where "2 ^ 52 * b' \<le> a'" "a' < 2 ^ 53 * b'" "a' = a * 2 ^ u" "b' = 2 * b * 2 ^ v"
        by auto
      then have "b' = b * 2 ^ Suc v" by simp
      with \<open>2 ^ 52 * b' \<le> a'\<close> \<open>a' < 2 ^ 53 * b'\<close> \<open>a' = a * 2 ^ u\<close> show ?thesis by blast
    next
      case b: False
      have "scale a b = (a, b)"
        using nz False b by (subst scale.simps) simp
      with p(3) have e: "a' = a" "b' = b" by simp_all
      have "a' = a * 2 ^ 0" "b' = b * 2 ^ 0" using e by simp_all
      with False b e show ?thesis by (metis not_le_imp_less not_less)
    qed
  qed
qed

lemma round_half_even_nearest:
  assumes "0 < b"
  shows "2 * (round_half_even a b * b) \<le> 2 * a + b \<and> 2 * a \<le> 2 * (round_half_even a b * b) + b"
proof -
  have e: "a = a div b * b + a mod b" by simp
  have m: "a mod b < b" using assms by simp
  define q where "q = a div b"
  define r where "r = a mod b"
  have a: "a = q * b + r" and rb: "r < b" using e m by (simp_all add: q_def r_def)
  have "round_half_even a b = (if 2 * r < b then q else if b < 2 * r then q + 1 else if even q then q else q + 1)"
    by (simp add: round_half_even_def q_def r_def Let_def)
  then consider "round_half_even a b = q" "2 * r \<le> b" | "round_half_even a b = q + 1" "b \<le> 2 * r"
    by (auto split: if_splits)
  then show ?thesis
  proof cases
    case 1
    then show ?thesis using a rb by (simp add: algebra_simps)
  next
    case 2
    then show ?thesis using a rb by (simp add: algebra_simps)
  qed
qed

lemma digit_chars:
  "digit_char 0 = CHR ''0''" "digit_char 1 = CHR ''1''" "digit_char 2 = CHR ''2''"
  "digit_char 3 = CHR ''3''" "digit_char 4 = CHR ''4''" "digit_char 5 = CHR ''5''"
  "digit_char 6 = CHR ''6''" "digit_char 7 = CHR ''7''" "digit_char 8 = CHR ''8''"
  "digit_char 9 = CHR ''9''" "digit_char (Suc 0) = CHR ''1''"
  by code_simp+

text \<open>
  The model of the float computation on some inputs; \<^verbatim>\<open>round(1 / 800 * 100, 2)\<close> is a tie
  that goes to the even digit.
\<close>

lemma round_percent_examples:
  "round_percent 0 1 = ''0.0''" "round_percent 1 1 = ''100.0''" "round_percent 1 2 = ''50.0''"
  "round_percent 1 3 = ''33.33''" "round_percent 2 3 = ''66.67''"
  "round_percent 1 800 = ''0.12''" "round_percent 5 800 = ''0.62''"
  "round_percent 1234 98765 = ''1.25''"
  by (simp_all add: round_percent_def nearest_double_def scale.simps round_half_even_def
      str_nat.simps digit_chars)

lemma round_percent_of_three:
  "round_percent 0 3 = ''0.0''" "round_percent (Suc 0) 3 = ''33.33''"
proof -
  show "round_percent 0 3 = ''0.0''"
    by (simp add: round_percent_def nearest_double_def scale.simps round_half_even_def
        str_nat.simps digit_chars)
  show "round_percent (Suc 0) 3 = ''33.33''"
    unfolding One_nat_def [symmetric] by (rule round_percent_examples(4))
qed

lemma report_of_produces:
  assumes "a_policies a = Some pv" "iter_policies pv = Inr ps" "a_results a = Some res"
  shows "\<exists>rep. report_of e a = Inr rep"
  by (simp add: report_of_Inr [OF assms] build_report_all_results)

lemma iter_policies_examples:
  "iter_policies (JList [JDict rule_a, JDict rule_b, JDict rule_c]) = Inr [rule_a, rule_b, rule_c]"
  "iter_policies (JList []) = Inr []"
  by (simp_all add: iter_policies_def)

lemma init_example:
  "init (JList [JDict rule_a, JDict rule_b, JDict rule_c]) =
     ([], Inr \<lparr> a_data = Some (JList [JDict rule_a, JDict rule_b, JDict rule_c]),
                a_policies = Some (JList [JDict rule_a, JDict rule_b, JDict rule_c]),
                a_results = Some empty_results \<rparr>)"
  by (simp add: init_def unwrap_def)

lemma example_counts:
  "length (fst (audit_permissive_rules [rule_a, rule_b, rule_c])) = 1"
  "length (snd (audit_permissive_rules [rule_a, rule_b, rule_c])) = 2"
  "length (audit_unused_rules [rule_a, rule_b, rule_c]) = 2"
  "length (audit_duplicate_rules [rule_a, rule_b, rule_c]) = 0"
  "length (fst (audit_logging [rule_a, rule_b, rule_c])) = 2"
  by (simp_all add: audit_permissive_rules_def audit_unused_rules_def audit_logging_def
      audit_duplicate_rules_def examples_action_upper examples_wildcards examples_bytes_zero
      examples_bytes_used examples_log_setting examples_signature)

theorem report_percent_fields_witness:
  "(\<exists>rep. report_of example_env
             \<lparr> a_data = Some (JList [JDict rule_a, JDict rule_b, JDict rule_c]),
               a_policies = Some (JList [JDict rule_a, JDict rule_b, JDict rule_c]),
               a_results = Some empty_results \<rparr> = Inr rep
       \<and> total_rules_analyzed (rp_summary rep) = 3
       \<and> all_all_rules_count (rp_summary rep) = 1
       \<and> all_all_rules_percent (rp_summary rep) = ''33.33%''
       \<and> single_all_rules_count (rp_summary rep) = 2
       \<and> single_all_rules_percent (rp_summary rep) = ''66.67%''
       \<and> duplicate_groups_percent (rp_summary rep) = ''0.0%''
       \<and> unused_rules_percent (rp_summary rep) = ''66.67%''
       \<and> rules_without_logging_percent (rp_summary rep) = ''66.67%'')
   \<and> (\<exists>rep. report_of example_env
             \<lparr> a_data = None, a_policies = Some (JList []), a_results = Some empty_results \<rparr> = Inr rep
       \<and> total_rules_analyzed (rp_summary rep) = 0
       \<and> all_all_rules_percent (rp_summary rep) = ''0%''
       \<and> single_all_rules_percent (rp_summary rep) = ''0%''
       \<and> duplicate_groups_percent (rp_summary rep) = ''0%''
       \<and> unused_rules_percent (rp_summary rep) = ''0%''
       \<and> rules_without_logging_percent (rp_summary rep) = ''0%'')"
proof -
  let ?pv = "JList [JDict rule_a, JDict rule_b, JDict rule_c]"
  let ?a1 = "\<lparr> a_data = Some ?pv, a_policies = Some ?pv, a_results = Some empty_results \<rparr>"
  let ?a0 = "\<lparr> a_data = None, a_policies = Some (JList []), a_results = Some empty_results \<rparr>"
  have r1: "\<exists>rep. report_of example_env ?a1 = Inr rep"
    by (rule report_of_produces [of _ ?pv "[rule_a, rule_b, rule_c]" empty_results])
      (simp_all add: iter_policies_examples)
  have r0: "\<exists>rep. report_of example_env ?a0 = Inr rep"
    by (rule report_of_produces [of _ "JList []" "[]" empty_results])
      (simp_all add: iter_policies_examples)
  from r1 obtain rep1 where rep1: "report_of example_env ?a1 = Inr rep1" by blast
  from r0 obtain rep0 where rep0: "report_of example_env ?a0 = Inr rep0" by blast
  from report_percent_fields [OF rep1] obtain pv ps where
    w1: "a_policies ?a1 = Some pv" "iter_policies pv = Inr ps"
      "total_rules_analyzed (rp_summary rep1) = length ps"
      "all_all_rules_count (rp_summary rep1) = length (fst (audit_permissive_rules ps))"
      "single_all_rules_count (rp_summary rep1) = length (snd (audit_permissive_rules ps))"
      "duplicate_groups_count (rp_summary rep1) = length (audit_duplicate_rules ps)"
      "unused_rules_count (rp_summary rep1) = length (audit_unused_rules ps)"
      "rules_without_logging (rp_summary rep1) = length (fst (audit_logging ps))"
      "all_all_rules_percent (rp_summary rep1)
          = (if length ps > 0
             then round_percent (all_all_rules_count (rp_summary rep1)) (length ps) @ ''%''
             else ''0%'')"
      "single_all_rules_percent (rp_summary rep1)
          = (if length ps > 0
             then round_percent (single_all_rules_count (rp_summary rep1)) (length ps) @ ''%''
             else ''0%'')"
      "duplicate_groups_percent (rp_summary rep1)
          = (if length ps > 0
             then round_percent (duplicate_groups_count (rp_summary rep1)) (length ps) @ ''%''
             else ''0%'')"
      "unused_rules_percent (rp_summary rep1)
          = (if length ps > 0
             then round_percent (unused_rules_count (rp_summary rep1)) (length ps) @ ''%''
             else ''0%'')"
      "rules_without_logging_percent (rp_summary rep1)
          = (if length ps > 0
             then round_percent (rules_without_logging (rp_summary rep1)) (length ps) @ ''%''
             else ''0%'')"
    by blast
  from w1(1) have "pv = ?pv" by simp
  with w1(2) have ps: "ps = [rule_a, rule_b, rule_c]" by (simp add: iter_policies_examples)
  have A: "total_rules_analyzed (rp_summary rep1) = 3
       \<and> all_all_rules_count (rp_summary rep1) = 1
       \<and> all_all_rules_percent (rp_summary rep1) = ''33.33%''
       \<and> single_all_rules_count (rp_summary rep1) = 2
       \<and> single_all_rules_percent (rp_summary rep1) = ''66.67%''
       \<and> duplicate_groups_percent (rp_summary rep1) = ''0.0%''
       \<and> unused_rules_percent (rp_summary rep1) = ''66.67%''
       \<and> rules_without_logging_percent (rp_summary rep1) = ''66.67%''"
  proof -
    have n3: "Suc (Suc (Suc 0)) = 3" by simp
    show ?thesis
      using w1(3-) unfolding ps
      by (simp add: example_counts round_percent_examples round_percent_of_three n3)
  qed
  from report_percent_fields [OF rep0] obtain pv' ps' where
    w0: "a_policies ?a0 = Some pv'" "iter_policies pv' = Inr ps'"
      "total_rules_analyzed (rp_summary rep0) = length ps'"
      "all_all_rules_percent (rp_summary rep0)
          = (if length ps' > 0
             then round_percent (all_all_rules_count (rp_summary rep0)) (length ps') @ ''%''
             else ''0%'')"
      "single_all_rules_percent (rp_summary rep0)
          = (if length ps' > 0
             then round_percent (single_all_rules_count (rp_summary rep0)) (length ps') @ ''%''
             else ''0%'')"
      "duplicate_groups_percent (rp_summary rep0)
          = (if length ps' > 0
             then round_percent (duplicate_groups_count (rp_summary rep0)) (length ps') @ ''%''
             else ''0%'')"
      "unused_rules_percent (rp_summary rep0)
          = (if length ps' > 0
             then round_percent (unused_rules_count (rp_summary rep0)) (length ps') @ ''%''
             else ''0%'')"
      "rules_without_logging_percent (rp_summary rep0)
          = (if length ps' > 0
             then round_percent (rules_without_logging (rp_summary rep0)) (length ps') @ ''%''
             else ''0%'')"
    by blast
  from w0(1) have "pv' = JList []" by simp
  with w0(2) have ps': "ps' = []" by (simp add: iter_policies_examples)
  have B: "total_rules_analyzed (rp_summary rep0) = 0
       \<and> all_all_rules_percent (rp_summary rep0) = ''0%''
       \<and> single_all_rules_percent (rp_summary rep0) = ''0%''
       \<and> duplicate_groups_percent (rp_summary rep0) = ''0%''
       \<and> unused_rules_percent (rp_summary rep0) = ''0%''
       \<and> rules_without_logging_percent (rp_summary rep0) = ''0%''"
    using w0(3-) unfolding ps' by simp
  from rep1 A rep0 B show ?thesis by blast
qed

section \<open>A run over an empty rule sequence\<close>

lemma init_empty_policies:
  assumes "py_truthy d" "unwrap d = Inr pol" "\<not> py_truthy pol"
  shows "init d =
     ([''ERROR: No policies found in JSON'', ''STOP - Invalid or empty JSON structure''],
      Inr \<lparr> a_data = Some d, a_policies = Some pol, a_results = None \<rparr>)"
  using assms by (simp add: init_def)

lemma init_bare_empty_list: "init (JList []) = ([], Inl (AttributeError ''data''))"
  by (simp add: init_def)

lemma report_of_no_results:
  assumes "a_results a = None"
  shows "\<exists>err. report_of e a = Inl err"
proof (cases "report_of e a")
  case (Inl err)
  then show ?thesis by blast
next
  case (Inr rep)
  from report_of_Inr_D [OF Inr] assms show ?thesis by simp
qed

lemma main_empty_policies:
  assumes "py_truthy d" "unwrap d = Inr pol" "\<not> py_truthy pol"
  shows "\<exists>err. main e d =
     ([''ERROR: No policies found in JSON'', ''STOP - Invalid or empty JSON structure'',
       ''Performing analysis on your actual data...'', ''Generating JSON audit report...''],
      Raised err)"
proof -
  let ?a = "\<lparr> a_data = Some d, a_policies = Some pol, a_results = None \<rparr>"
  obtain err where "report_of e ?a = Inl err"
    using report_of_no_results [of ?a e] by auto
  then show ?thesis
    using assms(1) init_empty_policies [OF assms]
    by (simp add: main_def generate_json_report_def)
qed

text \<open>
  Claim C4. With the document \<^verbatim>\<open>{"policies": []}\<close> the constructor prints its error and
  returns, but the object exists with \<^verbatim>\<open>policies\<close> set and \<^verbatim>\<open>results\<close> not set. The test
  of \<^verbatim>\<open>main\<close>, \<^verbatim>\<open>not hasattr(auditor, 'policies')\<close>, does not stop the run: the report
  generation starts, \<^verbatim>\<open>audit_unused_rules\<close> runs its loop and raises \<^verbatim>\<open>AttributeError\<close> when
  it stores its findings. No report is produced, by the exception and not by the
  initialisation failing.
\<close>

theorem empty_policies_run:
  "init (JDict [(''policies'', JList [])]) =
     ([''ERROR: No policies found in JSON'', ''STOP - Invalid or empty JSON structure''],
      Inr \<lparr> a_data = Some (JDict [(''policies'', JList [])]), a_policies = Some (JList []),
            a_results = None \<rparr>)
   \<and> run_audit_unused_rules
        \<lparr> a_data = Some (JDict [(''policies'', JList [])]), a_policies = Some (JList []),
          a_results = None \<rparr> = Inl (AttributeError ''results'')
   \<and> main e (JDict [(''policies'', JList [])]) =
     ([''ERROR: No policies found in JSON'', ''STOP - Invalid or empty JSON structure'',
       ''Performing analysis on your actual data...'', ''Generating JSON audit report...''],
      Raised (AttributeError ''results''))"
  by (simp add: init_def unwrap_def dict_get_def main_def generate_json_report_def report_of_def
      bind_err_def run_audit_unused_rules_def audit_method_def iter_policies_def)

section \<open>Duplicate detector: groups by signature\<close>

lemma first_seen_snoc:
  "first_seen (xs @ [k]) = (if k \<in> set xs then first_seen xs else first_seen xs @ [k])"
  by (induction xs) auto

lemma set_first_seen [simp]: "set (first_seen xs) = set xs"
  by (induction xs) auto

lemma distinct_first_seen [simp]: "distinct (first_seen xs)"
  by (induction xs) auto

lemma sig_append_map:
  assumes "distinct ks"
  shows "sig_append (map (\<lambda>k'. (k', g k')) ks) k m =
     (if k \<in> set ks then map (\<lambda>k'. (k', if k' = k then g k' @ [m] else g k')) ks
      else map (\<lambda>k'. (k', g k')) ks @ [(k, [m])])"
  using assms by (induction ks) auto

lemma sig_append_grouped: "sig_append (grouped kvs) k m = grouped (kvs @ [(k, m)])"
proof -
  let ?G = "\<lambda>k'. map snd (filter (\<lambda>kv. fst kv = k') kvs)"
  let ?G' = "\<lambda>k'. map snd (filter (\<lambda>kv. fst kv = k') (kvs @ [(k, m)]))"
  have G': "\<And>k'. ?G' k' = (if k' = k then ?G k' @ [m] else ?G k')"
    by auto
  show ?thesis
  proof (cases "k \<in> set (map fst kvs)")
    case True
    then have "sig_append (grouped kvs) k m
        = map (\<lambda>k'. (k', if k' = k then ?G k' @ [m] else ?G k')) (first_seen (map fst kvs))"
      unfolding grouped_def by (subst sig_append_map) simp_all
    also have "\<dots> = grouped (kvs @ [(k, m)])"
      using True unfolding grouped_def by (simp add: first_seen_snoc G')
    finally show ?thesis .
  next
    case False
    then have nil: "?G k = []"
      by (auto simp: filter_empty_conv)
    from False have "sig_append (grouped kvs) k m
        = map (\<lambda>k'. (k', ?G k')) (first_seen (map fst kvs)) @ [(k, [m])]"
      unfolding grouped_def by (subst sig_append_map) simp_all
    also have "\<dots> = grouped (kvs @ [(k, m)])"
    proof -
      have "map (\<lambda>k'. (k', ?G' k')) (first_seen (map fst kvs))
          = map (\<lambda>k'. (k', ?G k')) (first_seen (map fst kvs))"
        using False by (intro map_cong refl) (auto simp: G')
      moreover have "?G' k = [m]" using nil by (simp add: G')
      ultimately show ?thesis
        using False unfolding grouped_def by (simp add: first_seen_snoc)
    qed
    finally show ?thesis .
  qed
qed

lemma foldl_sig_append:
  "foldl (\<lambda>s km. sig_append s (fst km) (snd km)) (grouped kvs0) kvs = grouped (kvs0 @ kvs)"
proof (induction kvs arbitrary: kvs0)
  case Nil
  show ?case by simp
next
  case (Cons km kvs)
  have "foldl (\<lambda>s km. sig_append s (fst km) (snd km)) (grouped kvs0) (km # kvs)
      = foldl (\<lambda>s km. sig_append s (fst km) (snd km)) (grouped (kvs0 @ [km])) kvs"
    by (cases km) (simp add: sig_append_grouped)
  also have "\<dots> = grouped ((kvs0 @ [km]) @ kvs)" by (rule Cons.IH)
  finally show ?case by simp
qed

lemma signature_loop_eq:
  "signature_loop i ps sigs = foldl (\<lambda>s km. sig_append s (fst km) (snd km)) sigs (accept_entries i ps)"
  by (induction ps arbitrary: i sigs) (simp_all add: accept_entries_def)

lemma grouped_Nil: "grouped [] = []"
  by (simp add: grouped_def)

lemma signature_loop_grouped: "signature_loop 0 ps [] = grouped (accept_entries 0 ps)"
  using foldl_sig_append [of "[]" "accept_entries 0 ps"]
  by (simp add: signature_loop_eq grouped_Nil)

lemma collect_duplicates_eq:
  "collect_duplicates sigs acc =
     acc @ map (\<lambda>(s, rs). \<lparr> g_signature = s, g_rules = rs, g_count = length rs \<rparr>)
             (filter (\<lambda>(s, rs). 1 < length rs) sigs)"
  by (induction sigs arbitrary: acc) auto

lemma audit_duplicate_rules_eq:
  "audit_duplicate_rules ps =
     map (\<lambda>(s, rs). \<lparr> g_signature = s, g_rules = rs, g_count = length rs \<rparr>)
       (filter (\<lambda>(s, rs). 1 < length rs) (grouped (accept_entries 0 ps)))"
  by (simp add: audit_duplicate_rules_def signature_loop_grouped collect_duplicates_eq)


lemma keys_accept_entries:
  "map fst (accept_entries 0 ps) = map signature_of (filter (\<lambda>p. action_upper p = ''ACCEPT'') ps)"
proof -
  have "filter (\<lambda>p. action_upper p = ''ACCEPT'') (map snd (enumerate 0 ps))
      = map snd (filter ((\<lambda>p. action_upper p = ''ACCEPT'') \<circ> snd) (enumerate 0 ps))"
    by (rule filter_map)
  then have e: "map snd (filter (\<lambda>jp. action_upper (snd jp) = ''ACCEPT'') (enumerate 0 ps))
      = filter (\<lambda>p. action_upper p = ''ACCEPT'') ps"
    by (simp add: comp_def)
  have "map fst (accept_entries 0 ps)
      = map signature_of (map snd (filter (\<lambda>jp. action_upper (snd jp) = ''ACCEPT'') (enumerate 0 ps)))"
    by (simp add: accept_entries_def case_prod_unfold comp_def)
  with e show ?thesis by simp
qed

lemma members_accept_entries:
  "map snd (filter (\<lambda>kv. fst kv = k) (accept_entries 0 ps)) =
     map (\<lambda>(j, p). member_of j p)
       (filter (\<lambda>(j, p). action_upper p = ''ACCEPT'' \<and> signature_of p = k) (enumerate 0 ps))"
  by (simp add: accept_entries_def filter_map comp_def case_prod_unfold conj_commute)

lemma length_group:
  "length (filter (\<lambda>kv. fst kv = k) kvs) = count_list (map fst kvs) k"
  by (induction kvs) auto

lemma audit_duplicate_rules_groups:
  "audit_duplicate_rules ps =
     map (\<lambda>k. \<lparr> g_signature = k,
                 g_rules = map snd (filter (\<lambda>kv. fst kv = k) (accept_entries 0 ps)),
                 g_count = length (map snd (filter (\<lambda>kv. fst kv = k) (accept_entries 0 ps))) \<rparr>)
       (filter (\<lambda>k. 2 \<le> count_list (map fst (accept_entries 0 ps)) k)
          (first_seen (map fst (accept_entries 0 ps))))"
proof -
  have "\<And>k. (1 < length (map snd (filter (\<lambda>kv. fst kv = k) (accept_entries 0 ps))))
         = (2 \<le> count_list (map fst (accept_entries 0 ps)) k)"
    by (auto simp: length_group)
  then show ?thesis
    unfolding audit_duplicate_rules_eq grouped_def
    by (simp add: filter_map comp_def)
qed

lemma signature_of_unfold:
  "signature_of p =
     strip (safe_string (dict_get p ''Source'' (JStr []))) @ ''|''
     @ strip (safe_string (dict_get p ''Destination'' (JStr []))) @ ''|''
     @ strip (safe_string (dict_get p ''Service'' (JStr []))) @ ''|''
     @ strip (safe_string (dict_get p ''Interface Pair'' (JStr []))) @ ''|''
     @ action_upper p"
  by (simp add: signature_of_def)

text \<open>
  Claim C6. Every group of the duplicate detector has at least two members and its count
  is their number; its members are exactly the records whose action, upper-cased, is
  \<^verbatim>\<open>ACCEPT\<close> and whose signature equals the group's, in input order, so no group holds a
  record with another action. The signatures of the groups are those that occur at least
  twice among the \<^verbatim>\<open>ACCEPT\<close> records, each once, in the order of their first occurrence
  in the input. The signature is the normalized source, destination, service and
  interface pair, each without its leading and trailing white space, and the upper-cased
  action, joined by \<^verbatim>\<open>|\<close> in this order.
\<close>

theorem duplicate_groups:
  "(\<forall>g \<in> set (audit_duplicate_rules policies).
       g_count g = length (g_rules g) \<and> 2 \<le> length (g_rules g)
       \<and> g_rules g =
           map (\<lambda>(j, p). member_of j p)
             (filter (\<lambda>(j, p). action_upper p = ''ACCEPT'' \<and> signature_of p = g_signature g)
                (enumerate 0 policies))
       \<and> (\<forall>m \<in> set (g_rules g). \<exists>i < length policies.
             m = member_of i (policies ! i) \<and> action_upper (policies ! i) = ''ACCEPT''
             \<and> signature_of (policies ! i) = g_signature g))
   \<and> map g_signature (audit_duplicate_rules policies) =
        filter (\<lambda>s. 2 \<le> count_list
                          (map signature_of (filter (\<lambda>p. action_upper p = ''ACCEPT'') policies)) s)
          (first_seen (map signature_of (filter (\<lambda>p. action_upper p = ''ACCEPT'') policies)))
   \<and> distinct (map g_signature (audit_duplicate_rules policies))
   \<and> signature_of p =
        strip (safe_string (dict_get p ''Source'' (JStr []))) @ ''|''
        @ strip (safe_string (dict_get p ''Destination'' (JStr []))) @ ''|''
        @ strip (safe_string (dict_get p ''Service'' (JStr []))) @ ''|''
        @ strip (safe_string (dict_get p ''Interface Pair'' (JStr []))) @ ''|''
        @ action_upper p
   \<and> (trimmed (safe_string (dict_get p ''Source'' (JStr []))) src
        \<and> trimmed (safe_string (dict_get p ''Destination'' (JStr []))) dst
        \<and> trimmed (safe_string (dict_get p ''Service'' (JStr []))) srv
        \<and> trimmed (safe_string (dict_get p ''Interface Pair'' (JStr []))) ifp \<longrightarrow>
      signature_of p = src @ ''|'' @ dst @ ''|'' @ srv @ ''|'' @ ifp @ ''|'' @ action_upper p)
   \<and> (\<exists>src dst srv ifp.
        trimmed (safe_string (dict_get p ''Source'' (JStr []))) src
        \<and> trimmed (safe_string (dict_get p ''Destination'' (JStr []))) dst
        \<and> trimmed (safe_string (dict_get p ''Service'' (JStr []))) srv
        \<and> trimmed (safe_string (dict_get p ''Interface Pair'' (JStr []))) ifp)"
proof -
  let ?E = "accept_entries 0 policies"
  let ?G = "\<lambda>k. map snd (filter (\<lambda>kv. fst kv = k) ?E)"
  let ?ks = "filter (\<lambda>k. 2 \<le> count_list (map fst ?E) k) (first_seen (map fst ?E))"
  have D: "audit_duplicate_rules policies =
      map (\<lambda>k. \<lparr> g_signature = k, g_rules = ?G k, g_count = length (?G k) \<rparr>) ?ks"
    by (rule audit_duplicate_rules_groups)
  have sigs: "map g_signature (audit_duplicate_rules policies) = ?ks"
    unfolding D by (simp add: comp_def)
  have order: "map g_signature (audit_duplicate_rules policies) =
        filter (\<lambda>s. 2 \<le> count_list
                          (map signature_of (filter (\<lambda>p. action_upper p = ''ACCEPT'') policies)) s)
          (first_seen (map signature_of (filter (\<lambda>p. action_upper p = ''ACCEPT'') policies)))"
    unfolding sigs keys_accept_entries ..
  have dist: "distinct (map g_signature (audit_duplicate_rules policies))"
    unfolding sigs by simp
  have groups: "g_count g = length (g_rules g) \<and> 2 \<le> length (g_rules g)
       \<and> g_rules g =
           map (\<lambda>(j, p). member_of j p)
             (filter (\<lambda>(j, p). action_upper p = ''ACCEPT'' \<and> signature_of p = g_signature g)
                (enumerate 0 policies))
       \<and> (\<forall>m \<in> set (g_rules g). \<exists>i < length policies.
             m = member_of i (policies ! i) \<and> action_upper (policies ! i) = ''ACCEPT''
             \<and> signature_of (policies ! i) = g_signature g)"
    if "g \<in> set (audit_duplicate_rules policies)" for g
  proof -
    from that obtain k where k: "k \<in> set ?ks"
      and g: "g = \<lparr> g_signature = k, g_rules = ?G k, g_count = length (?G k) \<rparr>"
      unfolding D by auto
    have c: "g_count g = length (g_rules g)" using g by simp
    have "2 \<le> count_list (map fst ?E) k" using k by simp
    then have two: "2 \<le> length (g_rules g)"
      using g by (simp add: length_group)
    have r: "g_rules g =
           map (\<lambda>(j, p). member_of j p)
             (filter (\<lambda>(j, p). action_upper p = ''ACCEPT'' \<and> signature_of p = g_signature g)
                (enumerate 0 policies))"
      using g by (simp add: members_accept_entries)
    have "set (g_rules g) = {member_of i (policies ! i) | i. i < length policies
            \<and> (action_upper (policies ! i) = ''ACCEPT'' \<and> signature_of (policies ! i) = g_signature g)}"
      unfolding r by (rule set_map_filter_enumerate)
    then have m: "\<forall>m \<in> set (g_rules g). \<exists>i < length policies.
             m = member_of i (policies ! i) \<and> action_upper (policies ! i) = ''ACCEPT''
             \<and> signature_of (policies ! i) = g_signature g"
      by blast
    from c two r m show ?thesis by blast
  qed
  have trim: "signature_of p = src @ ''|'' @ dst @ ''|'' @ srv @ ''|'' @ ifp @ ''|'' @ action_upper p"
    if "trimmed (safe_string (dict_get p ''Source'' (JStr []))) src"
      "trimmed (safe_string (dict_get p ''Destination'' (JStr []))) dst"
      "trimmed (safe_string (dict_get p ''Service'' (JStr []))) srv"
      "trimmed (safe_string (dict_get p ''Interface Pair'' (JStr []))) ifp"
    unfolding signature_of_unfold that [THEN trimmed_strip] ..
  have ex: "\<exists>src dst srv ifp.
        trimmed (safe_string (dict_get p ''Source'' (JStr []))) src
        \<and> trimmed (safe_string (dict_get p ''Destination'' (JStr []))) dst
        \<and> trimmed (safe_string (dict_get p ''Service'' (JStr []))) srv
        \<and> trimmed (safe_string (dict_get p ''Interface Pair'' (JStr []))) ifp"
    using strip_trimmed by blast
  from groups order dist signature_of_unfold [of p] trim ex show ?thesis by blast
qed


lemma example_duplicates:
  "audit_duplicate_rules [rule_a, rule_c, rule_d, rule_c, rule_w] =
     [\<lparr> g_signature = ''all|10.0.0.0/8|any||ACCEPT'',
        g_rules = [member_of 0 rule_a, member_of 4 rule_w], g_count = 2 \<rparr>,
      \<lparr> g_signature = ''||||ACCEPT'',
        g_rules = [member_of 1 rule_c, member_of 3 rule_c], g_count = 2 \<rparr>]"
proof -
  have n: "Suc (Suc (Suc (Suc 0))) = 4" "Suc (Suc (Suc 0)) = 3"
    by simp_all
  show ?thesis
    by (simp add: audit_duplicate_rules_def examples_action_upper examples_signature n)
qed

lemma examples_trimmed_fields:
  "trimmed (safe_string (dict_get rule_w ''Source'' (JStr []))) ''all''"
  "trimmed (safe_string (dict_get rule_w ''Destination'' (JStr []))) ''10.0.0.0/8''"
  "trimmed (safe_string (dict_get rule_w ''Service'' (JStr []))) ''any''"
  "trimmed (safe_string (dict_get rule_w ''Interface Pair'' (JStr []))) []"
  by code_simp+

text \<open>
  Of the rules \<open>rule_a\<close>, \<open>rule_c\<close>, \<open>rule_d\<close> (a \<^verbatim>\<open>DENY\<close> rule), \<open>rule_c\<close> and \<open>rule_w\<close>
  (the fields of \<open>rule_a\<close> between white space, the action in lower case), the first and
  the last make the first group, the two \<open>rule_c\<close> the second.
\<close>

theorem duplicate_groups_witness:
  "\<lparr> g_signature = ''all|10.0.0.0/8|any||ACCEPT'',
      g_rules = [member_of 0 rule_a, member_of 4 rule_w], g_count = 2 \<rparr>
     \<in> set (audit_duplicate_rules [rule_a, rule_c, rule_d, rule_c, rule_w])
   \<and> [member_of 0 rule_a, member_of 4 rule_w] =
        map (\<lambda>(j, p). member_of j p)
          (filter (\<lambda>(j, p). action_upper p = ''ACCEPT''
                      \<and> signature_of p = ''all|10.0.0.0/8|any||ACCEPT'')
             (enumerate 0 [rule_a, rule_c, rule_d, rule_c, rule_w]))
   \<and> map g_signature (audit_duplicate_rules [rule_a, rule_c, rule_d, rule_c, rule_w])
        = [''all|10.0.0.0/8|any||ACCEPT'', ''||||ACCEPT'']
   \<and> distinct (map g_signature (audit_duplicate_rules [rule_a, rule_c, rule_d, rule_c, rule_w]))
   \<and> signature_of rule_w = ''all|10.0.0.0/8|any||ACCEPT''
   \<and> signature_of rule_w = signature_of rule_a"
proof -
  let ?ps = "[rule_a, rule_c, rule_d, rule_c, rule_w]"
  let ?g = "\<lparr> g_signature = ''all|10.0.0.0/8|any||ACCEPT'',
      g_rules = [member_of 0 rule_a, member_of 4 rule_w], g_count = 2 \<rparr>"
  have mem: "?g \<in> set (audit_duplicate_rules ?ps)"
    by (simp add: example_duplicates)
  note t = duplicate_groups [of ?ps rule_w "''all''" "''10.0.0.0/8''" "''any''" "[]"]
  from t mem have "g_rules ?g =
        map (\<lambda>(j, p). member_of j p)
          (filter (\<lambda>(j, p). action_upper p = ''ACCEPT'' \<and> signature_of p = g_signature ?g)
             (enumerate 0 ?ps))"
    by blast
  then have r: "[member_of 0 rule_a, member_of 4 rule_w] =
        map (\<lambda>(j, p). member_of j p)
          (filter (\<lambda>(j, p). action_upper p = ''ACCEPT''
                      \<and> signature_of p = ''all|10.0.0.0/8|any||ACCEPT'')
             (enumerate 0 ?ps))"
    by simp
  from t have d: "distinct (map g_signature (audit_duplicate_rules ?ps))"
    by blast
  have s: "map g_signature (audit_duplicate_rules ?ps) = [''all|10.0.0.0/8|any||ACCEPT'', ''||||ACCEPT'']"
    by (simp add: example_duplicates)
  from t examples_trimmed_fields
  have "signature_of rule_w = ''all'' @ ''|'' @ ''10.0.0.0/8'' @ ''|'' @ ''any'' @ ''|'' @ [] @ ''|''
      @ action_upper rule_w"
    by blast
  then have w: "signature_of rule_w = ''all|10.0.0.0/8|any||ACCEPT''"
    by (simp add: examples_action_upper)
  then have e: "signature_of rule_w = signature_of rule_a"
    by (simp add: examples_signature)
  from mem r d s w e show ?thesis by blast
qed

end
